theory Spec2Isabelle
  imports Complex_Main "HOL-Library.Option_ord" "HOL-Library.Sublist" "HOL-Library.Multiset"
begin

section \<open>Numbers and entries\<close>

text \<open>
  A JavaScript number that \<open>toNumber\<close> lets through is finite; it is modelled as a
  \<open>real\<close> (rounding of the double arithmetic is outside the model). A field that holds
  \<open>null\<close> is \<open>None\<close>. The two coercions the segmentation code applies to such a field
  are written out: the truth test of \<open>lastJuld ? a : b\<close> (\<open>null\<close> and \<open>0\<close> are falsy) and
  the conversion of \<open>null\<close> to \<open>0\<close> by the operators \<open>-\<close> and \<open><\<close>.
\<close>

type_synonym num = "real option"

definition truthy :: "num \<Rightarrow> bool" where
  "truthy v = (case v of None \<Rightarrow> False | Some x \<Rightarrow> x \<noteq> 0)"

definition toNum :: "num \<Rightarrow> real" where
  "toNum v = (case v of None \<Rightarrow> 0 | Some x \<Rightarrow> x)"

text \<open>The object built at lines 278-290 of \<open>app.js\<close>.\<close>

record entry =
  latitude :: real
  longitude :: real
  pres :: num
  juld :: num
  temp :: num
  psal :: num
  doxy :: num
  nitrate :: num
  ph :: num
  organization :: string
  dateIso :: "string option"

text \<open>The nine-field object of a cycle (lines 188-198): no organization, no ISO date.\<close>

record cycle_point =
  cp_latitude :: real
  cp_longitude :: real
  cp_pres :: num
  cp_juld :: num
  cp_temp :: num
  cp_psal :: num
  cp_doxy :: num
  cp_nitrate :: num
  cp_ph :: num

definition cyclePoint :: "entry \<Rightarrow> cycle_point" where
  "cyclePoint h = \<lparr> cp_latitude = latitude h, cp_longitude = longitude h, cp_pres = pres h,
     cp_juld = juld h, cp_temp = temp h, cp_psal = psal h, cp_doxy = doxy h,
     cp_nitrate = nitrate h, cp_ph = ph h \<rparr>"

text \<open>The eleven-field copy made for \<open>history\<close> and \<open>latest\<close> (lines 157-169, 174-186).\<close>

definition historyPoint :: "entry \<Rightarrow> entry" where
  "historyPoint h = \<lparr> latitude = latitude h, longitude = longitude h, pres = pres h,
     juld = juld h, temp = temp h, psal = psal h, doxy = doxy h, nitrate = nitrate h,
     ph = ph h, organization = organization h, dateIso = dateIso h \<rparr>"

section \<open>Cycle segmentation (\<open>finalizeFloatsFromMap\<close>)\<close>

text \<open>
  \<open>entries.sort((a, b) => (a.juld ?? -Infinity) - (b.juld ?? -Infinity))\<close>: the
  comparator is a consistent ordering on the keys (\<open>null\<close> below every number, the
  difference of two \<open>-Infinity\<close> is \<open>NaN\<close> and counts as equal), and the sort of the
  language is stable, so the result is the stable sort by the key \<open>juld\<close>, with \<open>None\<close>
  least.
\<close>

definition sortEntries :: "entry list \<Rightarrow> entry list" where
  "sortEntries es = sort_key juld es"

text \<open>The four variables of the walk: \<open>cycles\<close>, \<open>currentCycle\<close>, \<open>lastJuld\<close>, \<open>lastPres\<close>.\<close>

record walk =
  cyclesAcc :: "entry list list"
  currentCycle :: "entry list"
  lastJuld :: num
  lastPres :: num

definition walk0 :: walk where
  "walk0 = \<lparr> cyclesAcc = [], currentCycle = [], lastJuld = None, lastPres = None \<rparr>"

definition timeGap :: "num \<Rightarrow> entry \<Rightarrow> real" where
  "timeGap lastJ e = (if truthy lastJ then \<bar>toNum (juld e) - toNum lastJ\<bar> else 0)"

definition presGap :: "num \<Rightarrow> entry \<Rightarrow> real" where
  "presGap lastP e = (if truthy lastP then \<bar>toNum (pres e) - toNum lastP\<bar> else 0)"

text \<open>The condition of the \<open>if\<close> at line 136.\<close>

definition newCycle :: "nat \<Rightarrow> num \<Rightarrow> num \<Rightarrow> entry \<Rightarrow> bool" where
  "newCycle index lastJ lastP e =
     (index = 0 \<or> timeGap lastJ e > 1 \<or> (presGap lastP e > 50 \<and> toNum (pres e) < toNum lastP))"

text \<open>The body of the \<open>forEach\<close> callback (lines 131-147).\<close>

definition visit :: "nat \<Rightarrow> walk \<Rightarrow> entry \<Rightarrow> walk" where
  "visit index w e =
     (if newCycle index (lastJuld w) (lastPres w) e
      then \<lparr> cyclesAcc = (if currentCycle w \<noteq> [] then cyclesAcc w @ [currentCycle w]
                           else cyclesAcc w),
             currentCycle = [e], lastJuld = juld e, lastPres = pres e \<rparr>
      else \<lparr> cyclesAcc = cyclesAcc w, currentCycle = currentCycle w @ [e],
             lastJuld = juld e, lastPres = pres e \<rparr>)"

fun forEach :: "nat \<Rightarrow> walk \<Rightarrow> entry list \<Rightarrow> walk" where
  "forEach index w [] = w"
| "forEach index w (e # es) = forEach (Suc index) (visit index w e) es"

text \<open>Lines 149-151: the cycle in progress is pushed when it is not empty.\<close>

definition closeWalk :: "walk \<Rightarrow> entry list list" where
  "closeWalk w = (if currentCycle w \<noteq> [] then cyclesAcc w @ [currentCycle w] else cyclesAcc w)"

definition segment :: "entry list \<Rightarrow> entry list list" where
  "segment es = closeWalk (forEach 0 walk0 es)"

text \<open>
  A bucket of the aggregation map and the record built from it. The kind is the string
  \<open>'bgc'\<close> or \<open>'core'\<close> of the source.
\<close>

record bucket =
  entries :: "entry list"
  btype :: string

record float_record =
  float_id :: string
  float_type :: string
  latest :: entry
  history :: "entry list"
  cycles :: "cycle_point list list"

datatype error = TypeError | RangeError

text \<open>
  One iteration of the loop of \<open>finalizeFloatsFromMap\<close> (lines 117-200). Line 154 reads
  \<open>cycles[cycles.length - 1]\<close> and then its last element; on an empty \<open>cycles\<close> the first
  read is \<open>undefined\<close> and taking its \<open>length\<close> throws, and an \<open>undefined\<close> \<open>latest\<close> throws
  at line 175. \<open>bucket.type || 'core'\<close> replaces an empty kind.
\<close>

definition finalizeFloat :: "string \<Rightarrow> bucket \<Rightarrow> error + float_record" where
  "finalizeFloat platform b =
     (let es = sortEntries (entries b);
          cs = segment es
      in if cs = [] then Inl TypeError
         else if last cs = [] then Inl TypeError
         else Inr \<lparr> float_id = platform,
                    float_type = (if btype b = [] then ''core'' else btype b),
                    latest = historyPoint (last (last cs)),
                    history = map historyPoint es,
                    cycles = map (map cyclePoint) cs \<rparr>)"

text \<open>The loop over the map, in insertion order; a throw ends the whole call.\<close>

fun finalizeFloatsFromMap :: "(string \<times> bucket) list \<Rightarrow> error + float_record list" where
  "finalizeFloatsFromMap [] = Inr []"
| "finalizeFloatsFromMap ((platform, b) # rest) =
     (case finalizeFloat platform b of
        Inl err \<Rightarrow> Inl err
      | Inr f \<Rightarrow> (case finalizeFloatsFromMap rest of
                    Inl err \<Rightarrow> Inl err
                  | Inr fs \<Rightarrow> Inr (f # fs)))"

text \<open>
  The index in the flattened sequence at which each cycle starts: the lengths of the
  cycles before it, added up.
\<close>

definition cycleStarts :: "'a list list \<Rightarrow> nat list" where
  "cycleStarts cs = map (\<lambda>k. length (concat (take k cs))) [0..<length cs]"

text \<open>
  The values of \<open>lastJuld\<close> and \<open>lastPres\<close> when the callback reaches index \<open>i\<close>: \<open>null\<close> at
  the first entry, the fields of the entry before otherwise; \<open>startsCycle es i\<close> is the
  condition of line 136 there.
\<close>

definition prevJuld :: "entry list \<Rightarrow> nat \<Rightarrow> num" where
  "prevJuld es i = (if i = 0 then None else juld (es ! (i - 1)))"

definition prevPres :: "entry list \<Rightarrow> nat \<Rightarrow> num" where
  "prevPres es i = (if i = 0 then None else pres (es ! (i - 1)))"

definition startsCycle :: "entry list \<Rightarrow> nat \<Rightarrow> bool" where
  "startsCycle es i = newCycle i (prevJuld es i) (prevPres es i) (es ! i)"

text \<open>
  A test entry: what a row with position, time and pressure columns only produces.
\<close>

definition sample :: "num \<Rightarrow> num \<Rightarrow> entry" where
  "sample j p = \<lparr> latitude = 10, longitude = 20, pres = p, juld = j, temp = None,
     psal = None, doxy = None, nitrate = None, ph = None, organization = [],
     dateIso = None \<rparr>"

section \<open>Strings, rows and alias resolution\<close>

text \<open>
  Strings are lists of code units, the ASCII range being what the aliases and the numeric
  literals use. \<open>toLowerCase\<close> maps \<open>A\<close>-\<open>Z\<close> to \<open>a\<close>-\<open>z\<close> (bit 5 set), \<open>trim\<close> removes
  the white space and line terminators of that range at both ends.
\<close>

definition lowerChar :: "char \<Rightarrow> char" where
  "lowerChar c = (if 65 \<le> (of_char c :: nat) \<and> (of_char c :: nat) \<le> 90
                  then (case c of Char b0 b1 b2 b3 b4 b5 b6 b7 \<Rightarrow> Char b0 b1 b2 b3 b4 True b6 b7)
                  else c)"

definition toLowerCase :: "string \<Rightarrow> string" where
  "toLowerCase s = map lowerChar s"

definition isWhite :: "char \<Rightarrow> bool" where
  "isWhite c = ((of_char c :: nat) = 32 \<or> (9 \<le> (of_char c :: nat) \<and> (of_char c :: nat) \<le> 13))"

definition trim :: "string \<Rightarrow> string" where
  "trim s = rev (dropWhile isWhite (rev (dropWhile isWhite s)))"

text \<open>
  The row object \<open>r\<close> handed to the callback: its own keys in the order \<open>Object.keys\<close>
  lists them, each with its value; \<open>r[k]\<close> is \<open>map_of r k\<close>.
\<close>

type_synonym row = "(string \<times> string) list"

text \<open>
  Lines 226-227: \<open>keyMap.set(k.toLowerCase(), k)\<close> for every key in order, a later key
  replacing an earlier one with the same lower-case form.
\<close>

definition keyMap :: "row \<Rightarrow> (string \<rightharpoonup> string)" where
  "keyMap r = fold (\<lambda>k m. m(toLowerCase k \<mapsto> k)) (map fst r) Map.empty"

text \<open>
  Lines 228-234, the closure \<open>get\<close>: the first name whose lower-case form has a key \<open>k\<close>
  in \<open>keyMap\<close>, with \<open>k\<close> truthy and \<open>r[k]\<close> neither \<open>undefined\<close> nor empty, gives \<open>r[k]\<close>;
  the empty string when there is none.
\<close>

fun get :: "row \<Rightarrow> string list \<Rightarrow> string" where
  "get r [] = []"
| "get r (name # names) =
     (case keyMap r (toLowerCase name) of
        None \<Rightarrow> get r names
      | Some k \<Rightarrow>
          (if k \<noteq> [] then
             (case map_of r k of
                None \<Rightarrow> get r names
              | Some v \<Rightarrow> if v \<noteq> [] then v else get r names)
           else get r names))"

declare get.simps [simp del]

text \<open>
  Alias resolution as the specification words it: the values of the row's keys that match
  a name case-insensitively and are not empty, taken name by name in priority order; the
  first of them, or the empty string (absent) when there is none.
\<close>

definition presentValues :: "row \<Rightarrow> string \<Rightarrow> string list" where
  "presentValues r name =
     map snd (filter (\<lambda>(k, v). k \<noteq> [] \<and> toLowerCase k = toLowerCase name \<and> v \<noteq> []) r)"

definition firstAlias :: "row \<Rightarrow> string list \<Rightarrow> string" where
  "firstAlias r names = (case concat (map (presentValues r) names) of [] \<Rightarrow> [] | v # _ \<Rightarrow> v)"

section \<open>Numeric coercion (\<open>toNumber\<close>)\<close>

text \<open>
  \<open>parseFloat\<close> of the language: leading white space is skipped, the longest prefix that
  is a decimal literal (an optional sign, then \<open>Infinity\<close>, or digits with an optional
  fraction and an optional exponent) is read, and there is \<open>NaN\<close> when no prefix is one.
  A literal whose value rounds beyond the largest double is an infinity; a finite value
  is kept exact here.
\<close>

datatype jsnum = NaN | Infinity | NegInfinity | Finite real

definition isDigit :: "char \<Rightarrow> bool" where
  "isDigit c = (48 \<le> (of_char c :: nat) \<and> (of_char c :: nat) \<le> 57)"

definition digitVal :: "char \<Rightarrow> nat" where
  "digitVal c = of_char c - 48"

definition digitsVal :: "string \<Rightarrow> nat" where
  "digitsVal ds = foldl (\<lambda>n c. 10 * n + digitVal c) 0 ds"

definition signOf :: "string \<Rightarrow> bool \<times> string" where
  "signOf s = (case s of
       [] \<Rightarrow> (False, [])
     | c # rest \<Rightarrow> if c = CHR ''-'' then (True, rest)
                   else if c = CHR ''+'' then (False, rest) else (False, s))"

definition exponentPart :: "string \<Rightarrow> int" where
  "exponentPart s = (case s of
       [] \<Rightarrow> 0
     | c # rest \<Rightarrow>
         if c = CHR ''e'' \<or> c = CHR ''E'' then
           (let (neg, rest') = signOf rest; ds = takeWhile isDigit rest'
            in if ds = [] then 0
               else if neg then - int (digitsVal ds) else int (digitsVal ds))
         else 0)"

definition scale10 :: "real \<Rightarrow> int \<Rightarrow> real" where
  "scale10 x ex = (if 0 \<le> ex then x * 10 ^ nat ex else x / 10 ^ nat (- ex))"

definition roundDouble :: "real \<Rightarrow> jsnum" where
  "roundDouble v = (if 2 ^ 1024 - 2 ^ 970 \<le> v then Infinity
                    else if v \<le> - (2 ^ 1024 - 2 ^ 970) then NegInfinity
                    else Finite v)"

definition parseFloat :: "string \<Rightarrow> jsnum" where
  "parseFloat s =
     (let (neg, u) = signOf (dropWhile isWhite s)
      in if prefix ''Infinity'' u then (if neg then NegInfinity else Infinity)
         else
           (let ip = takeWhile isDigit u;
                r1 = dropWhile isDigit u;
                hasDot = (case r1 of [] \<Rightarrow> False | c # _ \<Rightarrow> c = CHR ''.'');
                fp = (if hasDot then takeWhile isDigit (tl r1) else []);
                r2 = (if hasDot then dropWhile isDigit (tl r1) else r1)
            in if ip = [] \<and> fp = [] then NaN
               else
                 (let mant = real (digitsVal ip) + real (digitsVal fp) / 10 ^ length fp;
                      v = scale10 mant (exponentPart r2)
                  in roundDouble (if neg then - v else v))))"

text \<open>
  Lines 109-113. The argument is \<open>None\<close> for \<open>undefined\<close> or \<open>null\<close> and a string
  otherwise; \<open>Number.isFinite\<close> lets only a finite number through.
\<close>

definition toNumber :: "string option \<Rightarrow> num" where
  "toNumber value =
     (case value of
        None \<Rightarrow> None
      | Some s \<Rightarrow> (case parseFloat (trim s) of Finite n \<Rightarrow> Some n | _ \<Rightarrow> None))"

section \<open>Time values and ISO dates\<close>

text \<open>
  The date arithmetic of the language, on integer milliseconds since 1970-01-01T00:00:00Z:
  \<open>Day\<close>, \<open>DayFromYear\<close>, \<open>YearFromTime\<close>, \<open>MonthFromTime\<close>, \<open>DateFromTime\<close>, \<open>MakeTime\<close>,
  \<open>MakeDay\<close>, \<open>MakeDate\<close> and \<open>TimeClip\<close> as the language standard defines them.
\<close>

definition msPerDay :: int where
  "msPerDay = 86400000"

definition Day :: "int \<Rightarrow> int" where
  "Day t = t div msPerDay"

definition TimeWithinDay :: "int \<Rightarrow> int" where
  "TimeWithinDay t = t mod msPerDay"

definition DayFromYear :: "int \<Rightarrow> int" where
  "DayFromYear y = 365 * (y - 1970) + (y - 1969) div 4 - (y - 1901) div 100 + (y - 1601) div 400"

definition isLeapYear :: "int \<Rightarrow> bool" where
  "isLeapYear y = (y mod 4 = 0 \<and> (y mod 100 \<noteq> 0 \<or> y mod 400 = 0))"

definition DaysInYear :: "int \<Rightarrow> int" where
  "DaysInYear y = (if isLeapYear y then 366 else 365)"

text \<open>
  The year of a day number is the largest \<open>y\<close> with \<open>DayFromYear y \<le> d\<close>. It is computed
  from the mean year length (146097 days in 400 years), which is off by one year at
  most, and one comparison on each side.
\<close>

definition yearFromDay :: "int \<Rightarrow> int" where
  "yearFromDay d =
     (let y = 1970 + (400 * d) div 146097
      in if d < DayFromYear y then y - 1
         else if DayFromYear (y + 1) \<le> d then y + 1
         else y)"

definition YearFromTime :: "int \<Rightarrow> int" where
  "YearFromTime t = yearFromDay (Day t)"

definition DayWithinYear :: "int \<Rightarrow> int" where
  "DayWithinYear t = Day t - DayFromYear (YearFromTime t)"

definition InLeapYear :: "int \<Rightarrow> int" where
  "InLeapYear t = (if isLeapYear (YearFromTime t) then 1 else 0)"

definition MonthFromTime :: "int \<Rightarrow> int" where
  "MonthFromTime t =
     (let d = DayWithinYear t; l = InLeapYear t
      in if d < 31 then 0
         else if d < 59 + l then 1
         else if d < 90 + l then 2
         else if d < 120 + l then 3
         else if d < 151 + l then 4
         else if d < 181 + l then 5
         else if d < 212 + l then 6
         else if d < 243 + l then 7
         else if d < 273 + l then 8
         else if d < 304 + l then 9
         else if d < 334 + l then 10
         else 11)"

text \<open>The day within the year on which month \<open>m\<close> (0 to 11) starts.\<close>

definition monthStart :: "int \<Rightarrow> int \<Rightarrow> int" where
  "monthStart l m =
     (if m = 0 then 0
      else if m = 1 then 31
      else if m = 2 then 59 + l
      else if m = 3 then 90 + l
      else if m = 4 then 120 + l
      else if m = 5 then 151 + l
      else if m = 6 then 181 + l
      else if m = 7 then 212 + l
      else if m = 8 then 243 + l
      else if m = 9 then 273 + l
      else if m = 10 then 304 + l
      else 334 + l)"

definition DateFromTime :: "int \<Rightarrow> int" where
  "DateFromTime t = DayWithinYear t + 1 - monthStart (InLeapYear t) (MonthFromTime t)"

definition HourFromTime :: "int \<Rightarrow> int" where
  "HourFromTime t = (t div 3600000) mod 24"

definition MinFromTime :: "int \<Rightarrow> int" where
  "MinFromTime t = (t div 60000) mod 60"

definition SecFromTime :: "int \<Rightarrow> int" where
  "SecFromTime t = (t div 1000) mod 60"

definition msFromTime :: "int \<Rightarrow> int" where
  "msFromTime t = t mod 1000"

definition MakeTime :: "int \<Rightarrow> int \<Rightarrow> int \<Rightarrow> int \<Rightarrow> int" where
  "MakeTime hour minute sec ms = hour * 3600000 + minute * 60000 + sec * 1000 + ms"

text \<open>
  \<open>MakeDay\<close>: the month is carried into the year (\<open>ym\<close>, \<open>mn\<close>), and the day number is that
  of the first of month \<open>mn\<close> of year \<open>ym\<close>, plus \<open>date - 1\<close>.
\<close>

definition MakeDay :: "int \<Rightarrow> int \<Rightarrow> int \<Rightarrow> int" where
  "MakeDay year month date =
     (let ym = year + month div 12; mn = month mod 12
      in DayFromYear ym + monthStart (if isLeapYear ym then 1 else 0) mn + date - 1)"

definition MakeDate :: "int \<Rightarrow> int \<Rightarrow> int" where
  "MakeDate day time = day * msPerDay + time"

definition TimeClip :: "int \<Rightarrow> int option" where
  "TimeClip t = (if \<bar>t\<bar> > 8640000000000000 then None else Some t)"

text \<open>
  \<open>Date.UTC(y, m, d, hh, mm, ss)\<close> on integers: a year from 0 to 99 means 1900 + year.
  \<open>None\<close> is the \<open>NaN\<close> of a time out of range.
\<close>

definition DateUTC :: "int \<Rightarrow> int \<Rightarrow> int \<Rightarrow> int \<Rightarrow> int \<Rightarrow> int \<Rightarrow> int option" where
  "DateUTC y m d hh mm ss =
     (let yr = (if 0 \<le> y \<and> y \<le> 99 then 1900 + y else y)
      in TimeClip (MakeDate (MakeDay yr m d) (MakeTime hh mm ss 0)))"

text \<open>
  \<open>new Date(v)\<close> for a number \<open>v\<close>: out of range gives an invalid date (\<open>None\<close>),
  otherwise the value is truncated towards zero.
\<close>

definition newDate :: "real \<Rightarrow> int option" where
  "newDate v = (if \<bar>v\<bar> > 8640000000000000 then None
                else Some (if 0 \<le> v then \<lfloor>v\<rfloor> else \<lceil>v\<rceil>))"

text \<open>
  Decimal digits at a fixed width, most significant first; \<open>digitChar\<close> is applied to
  numbers below ten only.
\<close>

definition digitChar :: "nat \<Rightarrow> char" where
  "digitChar n = ''0123456789'' ! n"

fun fixedDigits :: "nat \<Rightarrow> nat \<Rightarrow> string" where
  "fixedDigits 0 n = []"
| "fixedDigits (Suc w) n = fixedDigits w (n div 10) @ [digitChar (n mod 10)]"

text \<open>
  \<open>toISOString\<close> of a valid date: \<open>YYYY-MM-DDTHH:mm:ss.sssZ\<close>, the year with four digits
  from 0 to 9999 and with a sign and six digits otherwise.
\<close>

definition isoYear :: "int \<Rightarrow> string" where
  "isoYear y = (if 0 \<le> y \<and> y \<le> 9999 then fixedDigits 4 (nat y)
                else if y < 0 then CHR ''-'' # fixedDigits 6 (nat (- y))
                else CHR ''+'' # fixedDigits 6 (nat y))"

definition toISOString :: "int \<Rightarrow> string" where
  "toISOString t =
     isoYear (YearFromTime t) @ ''-'' @ fixedDigits 2 (nat (MonthFromTime t + 1)) @ ''-'' @
     fixedDigits 2 (nat (DateFromTime t)) @ ''T'' @ fixedDigits 2 (nat (HourFromTime t)) @ '':'' @
     fixedDigits 2 (nat (MinFromTime t)) @ '':'' @ fixedDigits 2 (nat (SecFromTime t)) @ ''.'' @
     fixedDigits 3 (nat (msFromTime t)) @ ''Z''"

text \<open>Lines 253-254: \<open>Date.parse('1950-01-01T00:00:00Z')\<close> and the milliseconds of a day.\<close>

definition epoch1950 :: int where
  "epoch1950 = MakeDate (MakeDay 1950 0 1) 0"

definition dayMs :: int where
  "dayMs = 24 * 60 * 60 * 1000"

text \<open>Line 258: the ISO date of a julian day; \<open>toISOString\<close> throws on an invalid date.\<close>

definition isoFromJuld :: "real \<Rightarrow> error + string" where
  "isoFromJuld j =
     (case newDate (real_of_int epoch1950 + j * real_of_int dayMs) of
        None \<Rightarrow> Inl RangeError
      | Some t \<Rightarrow> Inr (toISOString t))"

text \<open>
  Lines 261-272, for a date string with at least eight digits: the julian day and the ISO
  date read from \<open>yyyymmdd[HHMMSS]\<close>; \<open>None\<close> when the string has fewer digits.
  \<open>parseInt\<close> of a string of digits is its decimal value; \<open>slice a b\<close> is
  \<open>digits.slice(a, b)\<close> for \<open>a \<le> b\<close>.
\<close>

definition slice :: "nat \<Rightarrow> nat \<Rightarrow> string \<Rightarrow> string" where
  "slice a b s = take (b - a) (drop a s)"

definition parseInt :: "string \<Rightarrow> int" where
  "parseInt ds = int (digitsVal ds)"

definition fromDateString :: "string \<Rightarrow> (error + real \<times> string) option" where
  "fromDateString dateStr =
     (let digits = filter isDigit dateStr
      in if length digits \<ge> 8 then
           (let y = parseInt (slice 0 4 digits);
                m = parseInt (slice 4 6 digits) - 1;
                d = parseInt (slice 6 8 digits);
                hh = (if length digits \<ge> 10 then parseInt (slice 8 10 digits) else 0);
                mm = (if length digits \<ge> 12 then parseInt (slice 10 12 digits) else 0);
                ss = (if length digits \<ge> 14 then parseInt (slice 12 14 digits) else 0)
            in case DateUTC y m d hh mm ss of
                 None \<Rightarrow> Some (Inl RangeError)
               | Some dtMs \<Rightarrow>
                   Some (Inr (real_of_int (dtMs - epoch1950) / real_of_int dayMs,
                              toISOString dtMs)))
         else None)"

section \<open>The row callback of \<open>loadFloatsStreaming\<close>\<close>

text \<open>
  Lines 252-277: the time value and the ISO date of a row. A numeric \<open>JULD\<close> gives both;
  otherwise a date column with eight digits or more gives both; otherwise a numeric cycle
  number is the time value, with no date.
\<close>

definition rowTime :: "row \<Rightarrow> error + num \<times> string option" where
  "rowTime r =
     (case toNumber (Some (get r [''JULD'', ''juld'', ''JULD_ADJUSTED''])) of
        Some j \<Rightarrow>
          (case isoFromJuld j of
             Inl err \<Rightarrow> Inl err
           | Inr isoStr \<Rightarrow> Inr (Some j, Some isoStr))
      | None \<Rightarrow>
          (case fromDateString
                  (get r [''DATE_CREATION'', ''date_creation'', ''DATE'', ''date'', ''DATE_UPDATE'']) of
             Some (Inl err) \<Rightarrow> Inl err
           | Some (Inr (j, isoStr)) \<Rightarrow> Inr (Some j, Some isoStr)
           | None \<Rightarrow>
               Inr (toNumber (Some (get r [''CYCLE_NUMBER'', ''cycle_number'', ''cycle''])), None)))"

text \<open>
  Lines 236-290: \<open>Inr None\<close> when the callback returns early (no platform, or a latitude
  or longitude that is not a number), \<open>Inr (Some (platform, entry))\<close> for the entry it
  goes on to store, \<open>Inl\<close> when it throws.
\<close>

definition rowEntry :: "row \<Rightarrow> error + (string \<times> entry) option" where
  "rowEntry r =
     (let platform = trim (get r [''PLATFORM_NUMBER'', ''platform_number'', ''argo_id'', ''platformid''])
      in if platform = [] then Inr None
         else
           (case (toNumber (Some (get r [''LATITUDE'', ''latitude'', ''lat''])),
                  toNumber (Some (get r [''LONGITUDE'', ''longitude'', ''lon'', ''lng'']))) of
              (Some lat, Some lon) \<Rightarrow>
                (case rowTime r of
                   Inl err \<Rightarrow> Inl err
                 | Inr (j, isoStr) \<Rightarrow>
                     Inr (Some (platform,
                       \<lparr> latitude = lat, longitude = lon,
                         pres = toNumber (Some (get r [''PRES'', ''pres'', ''pressure''])),
                         juld = j,
                         temp = toNumber (Some (get r [''TEMP'', ''temp'', ''temperature''])),
                         psal = toNumber (Some (get r [''PSAL'', ''psal'', ''salinity''])),
                         doxy = toNumber (Some (get r [''DOXY'', ''doxy'', ''oxygen''])),
                         nitrate = toNumber (Some (get r [''NITRATE'', ''nitrate'',
                                      ''NITRATE_ADJUSTED'', ''nitrate_adjusted''])),
                         ph = toNumber (Some (get r [''PH_IN_SITU_TOTAL'', ''ph_in_situ_total'',
                                      ''PH_IN_SITU_TOTAL_ADJUSTED'', ''ph''])),
                         organization = trim (get r [''DATA_CENTRE'', ''data_centre'',
                                      ''ORGANIZATION'', ''organization'', ''ORG'', ''org'']),
                         dateIso = isoStr \<rparr>)))
            | _ \<Rightarrow> Inr None))"

section \<open>Platform aggregation\<close>

text \<open>
  \<open>idToEntries\<close> is a map in insertion order: a list of platforms with their buckets,
  each platform once. Lines 291-295: the bucket is created with the kind of the file
  at hand when the platform is new, the entry is pushed, and a \<open>'bgc'\<close> file sets the kind
  to \<open>'bgc'\<close>.
\<close>

type_synonym idmap = "(string \<times> bucket) list"

definition mapHas :: "idmap \<Rightarrow> string \<Rightarrow> bool" where
  "mapHas m platform = (map_of m platform \<noteq> None)"

definition pushEntry :: "string \<Rightarrow> entry \<Rightarrow> bucket \<Rightarrow> bucket" where
  "pushEntry sourceType e b =
     \<lparr> entries = entries b @ [e],
       btype = (if sourceType = ''bgc'' then ''bgc'' else btype b) \<rparr>"

definition addEntry :: "string \<Rightarrow> idmap \<Rightarrow> string \<Rightarrow> entry \<Rightarrow> idmap" where
  "addEntry sourceType m platform e =
     (let m1 = (if mapHas m platform then m
                else m @ [(platform, \<lparr> entries = [], btype = sourceType \<rparr>)])
      in map (\<lambda>(p, b). if p = platform then (p, pushEntry sourceType e b) else (p, b)) m1)"

text \<open>One call of the row callback on the map.\<close>

definition onRow :: "string \<Rightarrow> idmap \<Rightarrow> row \<Rightarrow> error + idmap" where
  "onRow sourceType m r =
     (case rowEntry r of
        Inl err \<Rightarrow> Inl err
      | Inr None \<Rightarrow> Inr m
      | Inr (Some (platform, e)) \<Rightarrow> Inr (addEntry sourceType m platform e))"

fun onRows :: "string \<Rightarrow> idmap \<Rightarrow> row list \<Rightarrow> error + idmap" where
  "onRows sourceType m [] = Inr m"
| "onRows sourceType m (r # rs) =
     (case onRow sourceType m r of
        Inl err \<Rightarrow> Inl err
      | Inr m' \<Rightarrow> onRows sourceType m' rs)"

text \<open>
  Line 223: the kind of a file is \<open>'bgc'\<close> when its lower-case path contains the segment
  \<open>bgc\<close> between two separators, \<open>'core'\<close> otherwise.
\<close>

definition pathSep :: string where
  "pathSep = ''/''"

definition sourceTypeOf :: "string \<Rightarrow> string" where
  "sourceTypeOf file =
     (if sublist (pathSep @ ''bgc'' @ pathSep) (toLowerCase file) then ''bgc'' else ''core'')"

text \<open>
  The files of the run, each with the rows its reader hands to the callback (none for a
  file that cannot be read), taken in order (lines 220-300). A throw of the callback is the
  value \<open>Inl\<close>: in the program it happens inside the \<open>line\<close> listener of the reader (line 102),
  outside the promise of line 85 and the \<open>try\<close> of line 222, so the pass then neither returns
  nor fails with a value that a caller could catch. The properties of a pass below are
  stated for the runs that return (\<open>Inr\<close>).
\<close>

fun readFiles :: "idmap \<Rightarrow> (string \<times> row list) list \<Rightarrow> error + idmap" where
  "readFiles m [] = Inr m"
| "readFiles m ((file, rows) # rest) =
     (case onRows (sourceTypeOf file) m rows of
        Inl err \<Rightarrow> Inl err
      | Inr m' \<Rightarrow> readFiles m' rest)"

section \<open>Directory scan (\<open>listFilesRecursive\<close>)\<close>

text \<open>
  What the scan sees of the file system: a regular file, a directory with its entries in
  the order \<open>readdirSync\<close> returns them, a directory whose listing throws, and anything else
  (neither \<open>isDirectory\<close> nor \<open>isFile\<close>).
\<close>

datatype node = File | Dir "(string \<times> node) list" | NoAccess | Special

definition pathJoin :: "string \<Rightarrow> string \<Rightarrow> string" where
  "pathJoin a b = a @ pathSep @ b"

text \<open>
  \<open>path.extname\<close> of a file name: from the last dot on, and empty when there is no dot or
  the only dot is the first character.
\<close>

definition extname :: "string \<Rightarrow> string" where
  "extname name =
     (let tail = rev (takeWhile (\<lambda>c. c \<noteq> CHR ''.'') (rev name))
      in if length tail = length name then []
         else if length tail + 1 = length name then []
         else CHR ''.'' # tail)"

definition isDirectory :: "node \<Rightarrow> bool" where
  "isDirectory n = (case n of Dir _ \<Rightarrow> True | NoAccess \<Rightarrow> True | _ \<Rightarrow> False)"

definition pushedDirs :: "string \<Rightarrow> (string \<times> node) list \<Rightarrow> (string \<times> node) list" where
  "pushedDirs current dirents =
     map (\<lambda>(name, n). (pathJoin current name, n)) (filter (\<lambda>(name, n). isDirectory n) dirents)"

definition foundFiles :: "string list \<Rightarrow> string \<Rightarrow> (string \<times> node) list \<Rightarrow> string list" where
  "foundFiles allowedExts current dirents =
     map (\<lambda>(name, n). pathJoin current name)
       (filter (\<lambda>(name, n). n = File \<and> toLowerCase (extname name) \<in> set allowedExts) dirents)"

definition stackSize :: "(string \<times> node) list \<Rightarrow> nat" where
  "stackSize stack = sum_list (map (\<lambda>(p, n). Suc (size n)) stack)"

text \<open>
  Lines 26-46, the loop over the stack. The top of the stack is the head of the list, so
  the directories pushed in one pass over the entries go on it in reverse. A listing that
  throws (\<open>NoAccess\<close>, or a start path that is not a directory) is skipped.
\<close>

function scan :: "string list \<Rightarrow> (string \<times> node) list \<Rightarrow> string list \<Rightarrow> string list" where
  "scan exts [] results = results"
| "scan exts ((current, n) # stack) results =
     (case n of
        Dir dirents \<Rightarrow>
          scan exts (rev (pushedDirs current dirents) @ stack)
            (results @ foundFiles exts current dirents)
      | _ \<Rightarrow> scan exts stack results)"
  by pat_completeness auto
termination
proof (relation "measure (\<lambda>(exts, stack, results). stackSize stack)")
  show "wf (measure (\<lambda>(exts, stack, results). stackSize stack))" by simp
next
  fix exts :: "string list" and current n and stack :: "(string \<times> node) list"
    and results :: "string list" and dirents
  assume n: "n = Dir dirents"
  have pushed: "stackSize (pushedDirs current dirents)
                  \<le> size_list (size_prod (\<lambda>_. 0) size) dirents"
    by (induction dirents) (auto simp: stackSize_def pushedDirs_def)
  have "stackSize (rev (pushedDirs current dirents) @ stack)
          = stackSize (pushedDirs current dirents) + stackSize stack"
    by (simp add: stackSize_def rev_map [symmetric])
  with n pushed
  show "((exts, rev (pushedDirs current dirents) @ stack, results @ foundFiles exts current dirents),
         (exts, (current, n) # stack, results)) \<in> measure (\<lambda>(exts, stack, results). stackSize stack)"
    by (simp add: stackSize_def)
qed (simp_all add: stackSize_def)

text \<open>\<open>startNode\<close> is what is at \<open>startDir\<close>, \<open>None\<close> when nothing exists there (line 24).\<close>

definition listFilesRecursive :: "string \<Rightarrow> node option \<Rightarrow> string list \<Rightarrow> string list" where
  "listFilesRecursive startDir startNode allowedExts =
     (case startNode of
        None \<Rightarrow> []
      | Some n \<Rightarrow> scan allowedExts [(startDir, n)] [])"

section \<open>The ingestion pass (\<open>loadFloatsStreaming\<close>)\<close>

text \<open>
  Lines 204-303. \<open>dirName\<close> is the directory of the program, \<open>bgcNode\<close> and \<open>coreNode\<close> are
  what is at \<open>data/bgc\<close> and \<open>data/core\<close> below it, and \<open>rowsOf\<close> gives the rows that the
  reader of a file hands to the callback.
\<close>

definition dataDir :: "string \<Rightarrow> string \<Rightarrow> string" where
  "dataDir dirName kind = pathJoin (pathJoin dirName ''data'') kind"

definition allFiles :: "string \<Rightarrow> node option \<Rightarrow> node option \<Rightarrow> string list" where
  "allFiles dirName bgcNode coreNode =
     listFilesRecursive (dataDir dirName ''bgc'') bgcNode [''.csv''] @
     listFilesRecursive (dataDir dirName ''core'') coreNode [''.csv'']"

definition loadFloatsStreaming ::
    "string \<Rightarrow> node option \<Rightarrow> node option \<Rightarrow> (string \<Rightarrow> row list) \<Rightarrow> error + float_record list" where
  "loadFloatsStreaming dirName bgcNode coreNode rowsOf =
     (let files = allFiles dirName bgcNode coreNode
      in if files = [] then Inr []
         else (case readFiles [] (map (\<lambda>file. (file, rowsOf file)) files) of
                 Inl err \<Rightarrow> Inl err
               | Inr m \<Rightarrow> finalizeFloatsFromMap m))"

text \<open>
  The entries that a list of files contributes, in order: the kind of the file, the
  platform and the entry of every row that yields one.
\<close>

definition rowContribs :: "string \<Rightarrow> row list \<Rightarrow> (string \<times> string \<times> entry) list" where
  "rowContribs sourceType rows =
     concat (map (\<lambda>r. case rowEntry r of
                          Inr (Some (platform, e)) \<Rightarrow> [(sourceType, platform, e)]
                        | _ \<Rightarrow> []) rows)"

definition contribs :: "(string \<times> row list) list \<Rightarrow> (string \<times> string \<times> entry) list" where
  "contribs files = concat (map (\<lambda>(file, rows). rowContribs (sourceTypeOf file) rows) files)"

definition addContrib :: "idmap \<Rightarrow> string \<times> string \<times> entry \<Rightarrow> idmap" where
  "addContrib m c = (case c of (sourceType, platform, e) \<Rightarrow> addEntry sourceType m platform e)"

definition bucketKind :: "idmap \<Rightarrow> string \<Rightarrow> string option" where
  "bucketKind m platform = map_option btype (map_of m platform)"

section \<open>The aggregation cache (\<open>ensureCache\<close>)\<close>

text \<open>
  Lines 306-326. The program runs on one thread: a function body and a promise callback
  each run to completion, and other code runs only between them. The state is the two
  variables \<open>FLOATS_CACHE\<close> and \<open>CACHE_BUILDING\<close>, the ingestion passes started so far, and
  what each call of \<open>ensureCache\<close> returned to its caller. A pass is \<open>Running\<close> until the
  promise of \<open>loadFloatsStreaming()\<close> settles, \<open>Settled\<close> until the callback chained on it
  has run, and \<open>Finished\<close> from then on, when the promise stored in \<open>CACHE_BUILDING\<close> is
  settled with the same outcome. That promise is identified by the number of its pass.
\<close>

type_synonym aggregate = "float_record list"

type_synonym outcome = "error + aggregate"

datatype pass = Running | Settled outcome | Finished outcome

datatype handle = Value aggregate | Attached nat

record cache =
  FLOATS_CACHE :: "aggregate option"
  CACHE_BUILDING :: "nat option"
  passes :: "pass list"
  served :: "handle list"

definition cache0 :: cache where
  "cache0 = \<lparr> FLOATS_CACHE = None, CACHE_BUILDING = None, passes = [], served = [] \<rparr>"

text \<open>
  The body of \<open>ensureCache\<close> (an array is truthy, also when empty): the cached value, or a
  new pass whose promise is stored and returned, or the stored promise.
\<close>

definition ensureCache :: "cache \<Rightarrow> cache" where
  "ensureCache s =
     (case FLOATS_CACHE s of
        Some a \<Rightarrow> s\<lparr> served := served s @ [Value a] \<rparr>
      | None \<Rightarrow>
          (case CACHE_BUILDING s of
             None \<Rightarrow> s\<lparr> CACHE_BUILDING := Some (length (passes s)),
                         passes := passes s @ [Running],
                         served := served s @ [Attached (length (passes s))] \<rparr>
           | Some n \<Rightarrow> s\<lparr> served := served s @ [Attached n] \<rparr>))"

text \<open>The callbacks of \<open>then\<close> (lines 312-319) and of \<open>catch\<close> (lines 320-323) of pass \<open>n\<close>.\<close>

definition thenCallback :: "nat \<Rightarrow> aggregate \<Rightarrow> cache \<Rightarrow> cache" where
  "thenCallback n result s =
     s\<lparr> FLOATS_CACHE := Some result, CACHE_BUILDING := None,
        passes := (passes s)[n := Finished (Inr result)] \<rparr>"

definition catchCallback :: "nat \<Rightarrow> error \<Rightarrow> cache \<Rightarrow> cache" where
  "catchCallback n err s =
     s\<lparr> CACHE_BUILDING := None, passes := (passes s)[n := Finished (Inl err)] \<rparr>"

text \<open>
  What can happen next: a call of \<open>ensureCache\<close>, the end of a running pass with some
  outcome, the callback of a settled pass. \<open>fire\<close> is \<open>None\<close> for an event that cannot happen
  in the state; \<open>run\<close> takes the events of a list in order.
\<close>

datatype event = Request | PassEnds nat outcome | Reaction nat

fun fire :: "event \<Rightarrow> cache \<Rightarrow> cache option" where
  "fire Request s = Some (ensureCache s)"
| "fire (PassEnds n out) s =
     (if n < length (passes s) \<and> passes s ! n = Running
      then Some (s\<lparr> passes := (passes s)[n := Settled out] \<rparr>)
      else None)"
| "fire (Reaction n) s =
     (if n < length (passes s) then
        (case passes s ! n of
           Settled (Inr result) \<Rightarrow> Some (thenCallback n result s)
         | Settled (Inl err) \<Rightarrow> Some (catchCallback n err s)
         | _ \<Rightarrow> None)
      else None)"

fun run :: "event list \<Rightarrow> cache \<Rightarrow> cache option" where
  "run [] s = Some s"
| "run (e # es) s = (case fire e s of None \<Rightarrow> None | Some s' \<Rightarrow> run es s')"

text \<open>What the caller that was handed \<open>h\<close> has received in state \<open>s\<close>, if anything yet.\<close>

definition observed :: "cache \<Rightarrow> handle \<Rightarrow> outcome option" where
  "observed s h =
     (case h of
        Value a \<Rightarrow> Some (Inr a)
      | Attached n \<Rightarrow>
          (if n < length (passes s)
           then (case passes s ! n of Finished out \<Rightarrow> Some out | _ \<Rightarrow> None)
           else None))"

definition isFinished :: "pass \<Rightarrow> bool" where
  "isFinished p = (case p of Finished _ \<Rightarrow> True | _ \<Rightarrow> False)"

definition isRunning :: "pass \<Rightarrow> bool" where
  "isRunning p = (case p of Running \<Rightarrow> True | _ \<Rightarrow> False)"

text \<open>
  The invariant of the reachable states: with no stored promise every pass is finished;
  with the promise of pass \<open>n\<close> stored, nothing is cached, \<open>n\<close> is the last pass, it is not
  finished and all others are.
\<close>

definition cacheInv :: "cache \<Rightarrow> bool" where
  "cacheInv s =
     (case CACHE_BUILDING s of
        None \<Rightarrow> list_all isFinished (passes s)
      | Some n \<Rightarrow> FLOATS_CACHE s = None \<and> Suc n = length (passes s) \<and>
                  \<not> isFinished (passes s ! n) \<and> list_all isFinished (take n (passes s)))"

section \<open>Auxiliary notions for the properties\<close>

text \<open>
  What one alias contributes to \<open>get\<close>: the value found through \<open>keyMap\<close>, when there is
  one and it is not empty. \<open>lowerKeys\<close> are the lower-case forms of a row's keys.
\<close>

definition lookupAlias :: "row \<Rightarrow> string \<Rightarrow> string list" where
  "lookupAlias r name =
     (case keyMap r (toLowerCase name) of
        None \<Rightarrow> []
      | Some k \<Rightarrow>
          (if k \<noteq> [] then
             (case map_of r k of None \<Rightarrow> [] | Some v \<Rightarrow> if v \<noteq> [] then [v] else [])
           else []))"

definition lowerKeys :: "row \<Rightarrow> string list" where
  "lowerKeys r = map (\<lambda>kv. toLowerCase (fst kv)) r"



definition rowW :: row where
  "rowW = [(''argo_id'', ''7''), (''lat'', ''1''), (''lon'', ''2'')]"

definition entryW :: entry where
  "entryW = \<lparr> latitude = 1, longitude = 2, pres = None, juld = None, temp = None, psal = None,
     doxy = None, nitrate = None, ph = None, organization = [], dateIso = None \<rparr>"

text \<open>
  The round trip of the specification: the ISO date of a julian day (line 258), read back
  by the date formula of lines 261-272. \<open>None\<close> when either step throws or the string has
  fewer than eight digits.
\<close>

definition roundTrip :: "real \<Rightarrow> real option" where
  "roundTrip j =
     (case isoFromJuld j of
        Inl err \<Rightarrow> None
      | Inr isoStr \<Rightarrow>
          (case fromDateString isoStr of
             Some (Inr (j', isoStr')) \<Rightarrow> Some j'
           | _ \<Rightarrow> None))"

section \<open>Properties of the segmentation\<close>

lemma forEach_snoc: "forEach i w (p @ [e]) = visit (i + length p) (forEach i w p) e"
  by (induction p arbitrary: i w) auto

lemma cycleStarts_snoc: "cycleStarts (cs @ [c]) = cycleStarts cs @ [length (concat cs)]"
  by (simp add: cycleStarts_def)

lemma startsCycle_append: "i < length p \<Longrightarrow> startsCycle (p @ q) i = startsCycle p i"
  by (auto simp: startsCycle_def prevJuld_def prevPres_def nth_append)

text \<open>The invariant of the loop, after a non-empty prefix \<open>p\<close> of the entries.\<close>

lemma walk_invariant:
  assumes "p \<noteq> []"
  shows "currentCycle (forEach 0 walk0 p) \<noteq> [] \<and>
         concat (cyclesAcc (forEach 0 walk0 p)) @ currentCycle (forEach 0 walk0 p) = p \<and>
         lastJuld (forEach 0 walk0 p) = juld (last p) \<and>
         lastPres (forEach 0 walk0 p) = pres (last p) \<and>
         cycleStarts (cyclesAcc (forEach 0 walk0 p) @ [currentCycle (forEach 0 walk0 p)])
           = filter (startsCycle p) [0..<length p]"
  using assms
proof (induction p rule: rev_induct)
  case Nil
  then show ?case by simp
next
  case (snoc e p)
  show ?case
  proof (cases "p = []")
    case True
    then show ?thesis
      by (simp add: visit_def walk0_def newCycle_def cycleStarts_def startsCycle_def)
  next
    case False
    define w where "w = forEach 0 walk0 p"
    from snoc.IH [OF False] have
      cur: "currentCycle w \<noteq> []" and
      cat: "concat (cyclesAcc w) @ currentCycle w = p" and
      lj: "lastJuld w = juld (last p)" and
      lp: "lastPres w = pres (last p)" and
      st: "cycleStarts (cyclesAcc w @ [currentCycle w]) = filter (startsCycle p) [0..<length p]"
      by (simp_all add: w_def)
    have step: "forEach 0 walk0 (p @ [e]) = visit (length p) w e"
      by (simp add: forEach_snoc w_def)
    have lastp: "last p = p ! (length p - 1)"
      using False by (simp add: last_conv_nth)
    have sc: "startsCycle (p @ [e]) (length p) = newCycle (length p) (lastJuld w) (lastPres w) e"
      using False by (simp add: startsCycle_def prevJuld_def prevPres_def lj lp lastp nth_append)
    have flt: "filter (startsCycle (p @ [e])) [0..<length p] = filter (startsCycle p) [0..<length p]"
      by (rule filter_cong) (simp_all add: startsCycle_append)
    have len: "length (concat (cyclesAcc w) @ currentCycle w) = length p"
      using cat by simp
    show ?thesis
    proof (cases "newCycle (length p) (lastJuld w) (lastPres w) e")
      case True
      have "cycleStarts ((cyclesAcc w @ [currentCycle w]) @ [[e]])
              = filter (startsCycle p) [0..<length p] @ [length p]"
        unfolding cycleStarts_snoc [of "cyclesAcc w @ [currentCycle w]"] st
        using cat by simp
      then show ?thesis
        using True cur cat sc flt
        by (simp add: step visit_def)
    next
      case False
      then show ?thesis
        using cur cat st sc flt
        by (simp add: step visit_def cycleStarts_snoc)
    qed
  qed
qed

lemma segment_Nil: "segment [] = []"
  by (simp add: segment_def closeWalk_def walk0_def)

lemma segment_concat: "concat (segment es) = es"
proof (cases "es = []")
  case True
  then show ?thesis by (simp add: segment_Nil)
next
  case False
  from walk_invariant [OF False] show ?thesis
    by (simp add: segment_def closeWalk_def)
qed

lemma segment_last: "es \<noteq> [] \<Longrightarrow> segment es \<noteq> [] \<and> last (segment es) \<noteq> []"
  using walk_invariant [of es] by (simp add: segment_def closeWalk_def)

text \<open>
  What the walk computes: the cycles, concatenated, are the entries, and a cycle starts
  at index \<open>i\<close> exactly when \<open>startsCycle es i\<close> holds, that is at the first entry, or where
  the previous time value is truthy (present and not 0) and the time gap exceeds 1, or
  where the previous pressure is truthy, the pressure gap exceeds 50 and the pressure
  (an absent one counting as 0) is below the previous one.
\<close>

lemma segment_starts:
  "es \<noteq> [] \<Longrightarrow> cycleStarts (segment es) = filter (startsCycle es) [0..<length es]"
  using walk_invariant [of es] by (simp add: segment_def closeWalk_def)

lemma cycleStarts_map: "cycleStarts (map (map f) cs) = cycleStarts cs"
  by (simp add: cycleStarts_def take_map map_concat [symmetric])

lemma historyPoint_id: "historyPoint (h :: entry) = h"
  by (simp add: historyPoint_def)

lemma sortEntries_Nil: "sortEntries es = [] \<longleftrightarrow> es = []"
  by (metis sortEntries_def length_sort length_0_conv)

lemma finalizeFloat_ok:
  assumes "entries b \<noteq> []"
  shows "finalizeFloat platform b =
     Inr \<lparr> float_id = platform,
           float_type = (if btype b = [] then ''core'' else btype b),
           latest = last (sortEntries (entries b)),
           history = sortEntries (entries b),
           cycles = map (map cyclePoint) (segment (sortEntries (entries b))) \<rparr>"
proof -
  let ?es = "sortEntries (entries b)"
  have ne: "?es \<noteq> []" using assms by (simp add: sortEntries_Nil)
  from segment_last [OF ne] have s: "segment ?es \<noteq> []" "last (segment ?es) \<noteq> []" by simp_all
  have "last (concat (segment ?es)) = last (last (segment ?es))"
    using s by (metis append_butlast_last_id concat_append concat.simps(2) concat.simps(1) append_Nil2 last_appendR)
  then have l: "last (last (segment ?es)) = last ?es" by (simp add: segment_concat)
  have hp: "map historyPoint ?es = ?es"
    by (simp add: historyPoint_id map_idI)
  show ?thesis using s l hp by (simp add: finalizeFloat_def Let_def historyPoint_id)
qed




text \<open>
  The scenario of the specification: time values 0, 0.5 and 3 give two cycles.
\<close>

lemma scenario_two_cycles:
  "finalizeFloat ''1001'' \<lparr> entries = [sample (Some 3) (Some 5), sample (Some 0) (Some 5),
                                     sample (Some (1/2)) (Some 5)], btype = ''bgc'' \<rparr>
   = Inr \<lparr> float_id = ''1001'', float_type = ''bgc'', latest = sample (Some 3) (Some 5),
           history = [sample (Some 0) (Some 5), sample (Some (1/2)) (Some 5), sample (Some 3) (Some 5)],
           cycles = [[cyclePoint (sample (Some 0) (Some 5)), cyclePoint (sample (Some (1/2)) (Some 5))],
                     [cyclePoint (sample (Some 3) (Some 5))]] \<rparr>"
  by (simp add: finalizeFloat_def sortEntries_def segment_def closeWalk_def walk0_def visit_def
       newCycle_def timeGap_def presGap_def truthy_def toNum_def sample_def historyPoint_def Let_def)

text \<open>
  Claim C2 (the code at the failing input). A bucket with time values 0 and 3 and equal
  pressures: the gap from the previous entry is 3, more than one day, and the second
  entry does not start a new cycle, because the previous time value 0 fails the truth
  test that guards the gap.
\<close>

theorem zero_time_hides_gap:
  "finalizeFloat ''1001'' \<lparr> entries = [sample (Some 0) (Some 5), sample (Some 3) (Some 5)],
                             btype = ''core'' \<rparr>
   = Inr \<lparr> float_id = ''1001'', float_type = ''core'', latest = sample (Some 3) (Some 5),
           history = [sample (Some 0) (Some 5), sample (Some 3) (Some 5)],
           cycles = [[cyclePoint (sample (Some 0) (Some 5)), cyclePoint (sample (Some 3) (Some 5))]] \<rparr>
   \<and> \<bar>toNum (juld (sample (Some 3) (Some 5))) - toNum (juld (sample (Some 0) (Some 5)))\<bar> > 1"
  by (simp add: finalizeFloat_def sortEntries_def segment_def closeWalk_def walk0_def visit_def
       newCycle_def timeGap_def presGap_def truthy_def toNum_def sample_def historyPoint_def Let_def)

text \<open>
  Claim C10. In the time-sorted entries of a bucket, when an entry with time value exactly
  0 is immediately followed by an entry with a time value above 1, the time gap computed
  at the second entry is 0, and that entry starts a new cycle exactly when the pressure
  condition holds there.
\<close>

theorem zero_time_suppresses_gap:
  assumes "es = sortEntries (entries b)"
    and "Suc i < length es"
    and "juld (es ! i) = Some 0"
    and "juld (es ! Suc i) = Some t"
    and "t > 1"
  shows "\<exists>r. finalizeFloat platform b = Inr r \<and>
           timeGap (juld (es ! i)) (es ! Suc i) = 0 \<and>
           (Suc i \<in> set (cycleStarts (cycles r)) \<longleftrightarrow>
              presGap (pres (es ! i)) (es ! Suc i) > 50 \<and>
              toNum (pres (es ! Suc i)) < toNum (pres (es ! i)))"
proof -
  have ne: "entries b \<noteq> []" using assms(1,2) by (auto simp: sortEntries_def)
  have es: "es \<noteq> []" using assms(2) by auto
  have tg: "timeGap (juld (es ! i)) (es ! Suc i) = 0"
    using assms(3) by (simp add: timeGap_def truthy_def)
  have "Suc i \<in> set (cycleStarts (segment es)) \<longleftrightarrow> startsCycle es (Suc i)"
    using assms(2) by (simp add: segment_starts [OF es])
  also have "\<dots> \<longleftrightarrow> presGap (pres (es ! i)) (es ! Suc i) > 50 \<and>
              toNum (pres (es ! Suc i)) < toNum (pres (es ! i))"
    using tg by (simp add: startsCycle_def prevJuld_def prevPres_def newCycle_def)
  finally show ?thesis
    using finalizeFloat_ok [OF ne, of platform] assms(1) tg
    by (simp add: cycleStarts_map)
qed

theorem zero_time_suppresses_gap_witness:
  "\<exists>r. finalizeFloat ''1001'' \<lparr> entries = [sample (Some 3) (Some 5), sample (Some 0) (Some 5)],
                                  btype = ''core'' \<rparr> = Inr r \<and>
       Suc 0 \<notin> set (cycleStarts (cycles r))"
proof -
  let ?b = "\<lparr> entries = [sample (Some 3) (Some 5), sample (Some 0) (Some 5)], btype = ''core'' \<rparr>"
  have s: "sortEntries (entries ?b) = [sample (Some 0) (Some 5), sample (Some 3) (Some 5)]"
    by (simp add: sortEntries_def sample_def)
  show ?thesis
    using zero_time_suppresses_gap [of "[sample (Some 0) (Some 5), sample (Some 3) (Some 5)]" ?b 0 3 "''1001''"]
    unfolding s
    by (auto simp: sample_def presGap_def truthy_def toNum_def)
qed

section \<open>Properties of alias resolution\<close>

lemma keyMap_fold:
  "fold (\<lambda>k m. m(toLowerCase k \<mapsto> k)) ks m0 l =
     (case filter (\<lambda>k. toLowerCase k = l) (rev ks) of [] \<Rightarrow> m0 l | k # _ \<Rightarrow> Some k)"
  by (induction ks arbitrary: m0) (auto split: list.splits simp: filter_empty_conv)

lemma keyMap_last:
  "keyMap r l = (case filter (\<lambda>k. toLowerCase k = l) (rev (map fst r)) of [] \<Rightarrow> None | k # _ \<Rightarrow> Some k)"
  by (simp add: keyMap_def keyMap_fold)

lemma keyMap_Cons:
  assumes "toLowerCase k0 \<notin> set (lowerKeys r)"
  shows "keyMap ((k0, v0) # r) l = (if toLowerCase k0 = l then Some k0 else keyMap r l)"
proof (cases "toLowerCase k0 = l")
  case True
  have "filter (\<lambda>k. toLowerCase k = l) (rev (map fst r)) = []"
    using assms True by (force simp: filter_empty_conv lowerKeys_def)
  then show ?thesis using True by (simp add: keyMap_last)
next
  case False
  then show ?thesis by (simp add: keyMap_last)
qed

lemma keyMap_Some:
  "keyMap r l = Some k \<Longrightarrow> toLowerCase k = l \<and> toLowerCase k \<in> set (lowerKeys r)"
proof -
  assume a: "keyMap r l = Some k"
  then obtain ks where "filter (\<lambda>k. toLowerCase k = l) (rev (map fst r)) = k # ks"
    by (auto simp: keyMap_last split: list.splits)
  then have "k \<in> set (filter (\<lambda>k. toLowerCase k = l) (rev (map fst r)))" by simp
  then show ?thesis by (force simp: lowerKeys_def)
qed

lemma presentValues_lookup:
  assumes "distinct (lowerKeys r)"
  shows "presentValues r name = lookupAlias r name"
  using assms
proof (induction r)
  case Nil
  then show ?case by (simp add: presentValues_def lookupAlias_def keyMap_def)
next
  case (Cons kv r)
  obtain k0 v0 where kv: "kv = (k0, v0)" by (cases kv)
  from Cons.prems kv have fresh: "toLowerCase k0 \<notin> set (lowerKeys r)"
    and dist: "distinct (lowerKeys r)" by (simp_all add: lowerKeys_def)
  note IH = Cons.IH [OF dist]
  show ?case
  proof (cases "toLowerCase k0 = toLowerCase name")
    case True
    have none: "keyMap r (toLowerCase name) = None"
    proof (cases "keyMap r (toLowerCase name)")
      case None then show ?thesis .
    next
      case (Some k)
      from keyMap_Some [OF Some] fresh True have False by metis
      then show ?thesis ..
    qed
    have "presentValues r name = []"
      using IH none by (simp add: lookupAlias_def)
    then show ?thesis
      using True kv by (simp add: presentValues_def lookupAlias_def keyMap_Cons [OF fresh])
  next
    case False
    have "map_of ((k0, v0) # r) k = map_of r k" if "keyMap r (toLowerCase name) = Some k" for k
      using keyMap_Some [OF that] False by auto
    then show ?thesis
      using False kv IH
      by (auto simp: presentValues_def lookupAlias_def keyMap_Cons [OF fresh] split: option.splits)
  qed
qed

lemma get_lookup:
  "get r names = (case concat (map (lookupAlias r) names) of [] \<Rightarrow> [] | v # _ \<Rightarrow> v)"
  by (induction names) (auto simp: lookupAlias_def get.simps split: option.splits)

text \<open>
  On a row whose keys stay distinct when lower-cased, \<open>get\<close> is the resolution that the
  specification describes.
\<close>

lemma get_is_firstAlias:
  assumes "distinct (lowerKeys r)"
  shows "get r names = firstAlias r names"
proof -
  have "presentValues r = lookupAlias r"
    using presentValues_lookup [OF assms] by (rule ext)
  then show ?thesis by (simp add: get_lookup firstAlias_def)
qed

lemmas alias_eval = toLowerCase_def lowerChar_def keyMap_def presentValues_def firstAlias_def get.simps

text \<open>
  Claim C4 (the code at the failing input). A row with the columns \<open>LATITUDE\<close> and
  \<open>latitude\<close>, in this order, and the alias list of the latitude: the code returns the
  value of \<open>latitude\<close>, the column read last, where the first alias is \<open>LATITUDE\<close>; and
  when \<open>latitude\<close> is empty it returns nothing although \<open>LATITUDE\<close> holds a value.
\<close>

theorem colliding_keys_last_wins:
  "get [(''LATITUDE'', ''10''), (''latitude'', ''20'')] [''LATITUDE'', ''latitude'', ''lat''] = ''20''
   \<and> firstAlias [(''LATITUDE'', ''10''), (''latitude'', ''20'')] [''LATITUDE'', ''latitude'', ''lat''] = ''10''
   \<and> get [(''LATITUDE'', ''10''), (''latitude'', [])] [''LATITUDE'', ''latitude'', ''lat''] = []"
  by (simp add: alias_eval)

section \<open>Properties of numeric coercion\<close>





lemmas tn = toNumber_def parseFloat_def trim_def isWhite_def signOf_def isDigit_def
  digitsVal_def digitVal_def exponentPart_def scale10_def roundDouble_def Let_def

text \<open>
  Some values: \<open>parseFloat\<close> reads the longest numeric prefix, so a text that starts
  with a number is that number.
\<close>

lemma toNumber_examples:
  "toNumber (Some '' 12.5 '') = Some (25 / 2)"
  "toNumber (Some ''-3e2'') = Some (- 300)"
  "toNumber (Some ''7abc'') = Some 7"
  "toNumber (Some ''abc'') = None"
  "toNumber (Some []) = None"
  "toNumber (Some ''Infinity'') = None"
  "toNumber None = None"
  by (simp_all add: tn)





section \<open>Properties of the aggregation\<close>

lemma onRows_contribs:
  "onRows st m rows = Inr m' \<Longrightarrow> m' = foldl addContrib m (rowContribs st rows)"
proof (induction rows arbitrary: m)
  case Nil
  then show ?case by (simp add: rowContribs_def)
next
  case (Cons r rows)
  then show ?case
    by (auto simp: rowContribs_def onRow_def addContrib_def split: sum.splits option.splits)
qed

lemma readFiles_contribs:
  "readFiles m files = Inr m' \<Longrightarrow> m' = foldl addContrib m (contribs files)"
proof (induction files arbitrary: m)
  case Nil
  then show ?case by (simp add: contribs_def)
next
  case (Cons f files)
  obtain fname rows where f: "f = (fname, rows)" by (cases f)
  from Cons.prems f obtain m1 where m1: "onRows (sourceTypeOf fname) m rows = Inr m1"
    and rest: "readFiles m1 files = Inr m'"
    by (auto split: sum.splits)
  from onRows_contribs [OF m1] Cons.IH [OF rest] f show ?case
    by (simp add: contribs_def)
qed

lemma map_of_update_all:
  "map_of (map (\<lambda>(p, b). if p = platform then (p, f b) else (p, b)) m) q
     = (if q = platform then map_option f (map_of m q) else map_of m q)"
  by (induction m) auto

lemma bucketKind_addEntry:
  "bucketKind (addEntry st m p e) q =
     (if q = p then Some (if st = ''bgc'' then ''bgc''
                          else (case bucketKind m p of None \<Rightarrow> st | Some t \<Rightarrow> t))
      else bucketKind m q)"
  by (auto simp: bucketKind_def addEntry_def mapHas_def map_of_update_all pushEntry_def Let_def
        map_add_def split: option.splits)

lemma kind_addContrib:
  "bucketKind (addContrib m (st, q, e)) p = Some ''bgc'' \<longleftrightarrow>
     bucketKind m p = Some ''bgc'' \<or> (q = p \<and> st = ''bgc'')"
  by (auto simp: addContrib_def bucketKind_addEntry split: option.splits)

lemma kind_fold:
  "bucketKind (foldl addContrib m cs) p = Some ''bgc'' \<longleftrightarrow>
     bucketKind m p = Some ''bgc'' \<or> (\<exists>e. (''bgc'', p, e) \<in> set cs)"
proof (induction cs arbitrary: m)
  case Nil
  then show ?case by simp
next
  case (Cons c cs)
  obtain st q e where c: "c = (st, q, e)" by (cases c)
  show ?case
    unfolding foldl_Cons Cons.IH c kind_addContrib by auto
qed

lemma keys_addEntry:
  "map fst (addEntry st m p e) = (if mapHas m p then map fst m else map fst m @ [p])"
  by (auto simp: addEntry_def Let_def comp_def case_prod_beta intro!: map_idI)

lemma distinct_fold:
  "distinct (map fst m) \<Longrightarrow> distinct (map fst (foldl addContrib m cs))"
proof (induction cs arbitrary: m)
  case Nil
  then show ?case by simp
next
  case (Cons c cs)
  obtain st q e where c: "c = (st, q, e)" by (cases c)
  have "distinct (map fst (addContrib m c))"
    using Cons.prems c
    by (auto simp: addContrib_def keys_addEntry mapHas_def map_of_eq_None_iff)
  from Cons.IH [OF this] show ?case by simp
qed

lemma finalizeFloat_kind:
  "finalizeFloat p b = Inr r \<Longrightarrow>
     float_id r = p \<and> float_type r = (if btype b = [] then ''core'' else btype b)"
  by (auto simp: finalizeFloat_def Let_def split: if_splits)

lemma finalize_members:
  "finalizeFloatsFromMap m = Inr fs \<Longrightarrow> r \<in> set fs \<Longrightarrow>
     \<exists>b. (float_id r, b) \<in> set m \<and> float_type r = (if btype b = [] then ''core'' else btype b)"
proof (induction m arbitrary: fs)
  case Nil
  then show ?case by simp
next
  case (Cons pb m)
  obtain p b where pb: "pb = (p, b)" by (cases pb)
  from Cons.prems(1) pb obtain f fs' where f: "finalizeFloat p b = Inr f"
    and fs': "finalizeFloatsFromMap m = Inr fs'" and fs: "fs = f # fs'"
    by (auto split: sum.splits)
  show ?case
  proof (cases "r = f")
    case True
    with finalizeFloat_kind [OF f] pb show ?thesis by auto
  next
    case False
    with Cons.prems(2) fs have "r \<in> set fs'" by simp
    from Cons.IH [OF fs' this] show ?thesis by auto
  qed
qed

lemma contribs_member:
  "(st, p, e) \<in> set (contribs files) \<longleftrightarrow>
     (\<exists>file rows row. (file, rows) \<in> set files \<and> sourceTypeOf file = st \<and> row \<in> set rows \<and>
        rowEntry row = Inr (Some (p, e)))"
  by (force simp: contribs_def rowContribs_def split: sum.splits option.splits)

lemma kind_of_record:
  assumes "readFiles [] files = Inr m"
    and "finalizeFloatsFromMap m = Inr fs"
    and "r \<in> set fs"
  shows "float_type r = ''bgc'' \<longleftrightarrow>
     (\<exists>file rows row e. (file, rows) \<in> set files \<and> sourceTypeOf file = ''bgc'' \<and>
        row \<in> set rows \<and> rowEntry row = Inr (Some (float_id r, e)))"
proof -
  have m: "m = foldl addContrib [] (contribs files)"
    using readFiles_contribs [OF assms(1)] .
  have d: "distinct (map fst m)" unfolding m by (rule distinct_fold) simp
  from finalize_members [OF assms(2,3)] obtain b where
    b: "(float_id r, b) \<in> set m" and t: "float_type r = (if btype b = [] then ''core'' else btype b)"
    by blast
  from d b have "map_of m (float_id r) = Some b" by simp
  then have k: "bucketKind m (float_id r) = Some (btype b)" by (simp add: bucketKind_def)
  have "float_type r = ''bgc'' \<longleftrightarrow> btype b = ''bgc''" using t by auto
  also have "\<dots> \<longleftrightarrow> bucketKind m (float_id r) = Some ''bgc''" using k by simp
  also have "\<dots> \<longleftrightarrow> (\<exists>e. (''bgc'', float_id r, e) \<in> set (contribs files))"
    unfolding m kind_fold by (simp add: bucketKind_def)
  also have "\<dots> \<longleftrightarrow> (\<exists>file rows row e. (file, rows) \<in> set files \<and> sourceTypeOf file = ''bgc'' \<and>
        row \<in> set rows \<and> rowEntry row = Inr (Some (float_id r, e)))"
    unfolding contribs_member by blast
  finally show ?thesis .
qed

lemma kind_sticky:
  assumes "bucketKind m p = Some ''bgc''" and "readFiles m files = Inr m'"
  shows "bucketKind m' p = Some ''bgc''"
  using readFiles_contribs [OF assms(2)] assms(1) by (simp add: kind_fold)

lemma load_kind:
  assumes "loadFloatsStreaming dirName bgcNode coreNode rowsOf = Inr fs" and "r \<in> set fs"
  shows "float_type r = ''bgc'' \<longleftrightarrow>
         (\<exists>file \<in> set (allFiles dirName bgcNode coreNode). sourceTypeOf file = ''bgc'' \<and>
            (\<exists>row \<in> set (rowsOf file). \<exists>e. rowEntry row = Inr (Some (float_id r, e))))"
proof -
  let ?files = "map (\<lambda>file. (file, rowsOf file)) (allFiles dirName bgcNode coreNode)"
  from assms(1) obtain m0 where m0: "readFiles [] ?files = Inr m0"
    and fin: "finalizeFloatsFromMap m0 = Inr fs"
    using assms(2) by (auto simp: loadFloatsStreaming_def Let_def split: if_splits sum.splits)
  show ?thesis
    unfolding kind_of_record [OF m0 fin assms(2)] by auto
qed

text \<open>
  The platforms of the map after a run are those it had before and those of the entries
  contributed; and no bucket of the map is empty, so that lines 120-121 find a first and a
  last entry in each.
\<close>

lemma keys_fold:
  "set (map fst (foldl addContrib m cs)) = set (map fst m) \<union> (\<lambda>c. fst (snd c)) ` set cs"
proof (induction cs arbitrary: m)
  case Nil
  then show ?case by simp
next
  case (Cons c cs)
  obtain st q e where c: "c = (st, q, e)" by (cases c)
  have "set (map fst (addContrib m c)) = insert q (set (map fst m))"
    by (auto simp: c addContrib_def keys_addEntry mapHas_def map_of_eq_None_iff)
  then show ?case unfolding foldl_Cons Cons.IH by (auto simp: c)
qed

lemma entries_addEntry:
  "list_all (\<lambda>(p, b). entries b \<noteq> []) m \<Longrightarrow>
   list_all (\<lambda>(p, b). entries b \<noteq> []) (addEntry st m q e)"
  by (auto simp: addEntry_def Let_def pushEntry_def list_all_iff mapHas_def
        split: if_splits)

lemma entries_fold:
  "list_all (\<lambda>(p, b). entries b \<noteq> []) m \<Longrightarrow>
   list_all (\<lambda>(p, b). entries b \<noteq> []) (foldl addContrib m cs)"
proof (induction cs arbitrary: m)
  case Nil
  then show ?case by simp
next
  case (Cons c cs)
  obtain st q e where c: "c = (st, q, e)" by (cases c)
  have "list_all (\<lambda>(p, b). entries b \<noteq> []) (addContrib m c)"
    using Cons.prems by (simp add: c addContrib_def entries_addEntry)
  from Cons.IH [OF this] show ?case by simp
qed

lemma finalize_total:
  "list_all (\<lambda>(p, b). entries b \<noteq> []) m \<Longrightarrow>
   \<exists>fs. finalizeFloatsFromMap m = Inr fs \<and> map float_id fs = map fst m"
proof (induction m)
  case Nil
  then show ?case by simp
next
  case (Cons pb m)
  obtain p b where pb: "pb = (p, b)" by (cases pb)
  from Cons.prems pb have ne: "entries b \<noteq> []"
    and rest: "list_all (\<lambda>(p, b). entries b \<noteq> []) m" by simp_all
  from Cons.IH [OF rest] obtain fs where fs: "finalizeFloatsFromMap m = Inr fs"
    "map float_id fs = map fst m" by blast
  show ?case using pb fs finalizeFloat_ok [OF ne, of p] by simp
qed

text \<open>
  A run that returns a map gives exactly one record to every platform that some row
  contributed an entry to, and no other record.
\<close>

lemma pass_records:
  assumes "readFiles [] files = Inr m"
  shows "\<exists>fs. finalizeFloatsFromMap m = Inr fs \<and> distinct (map float_id fs) \<and>
           set (map float_id fs) = (\<lambda>c. fst (snd c)) ` set (contribs files)"
proof -
  have m: "m = foldl addContrib [] (contribs files)"
    using readFiles_contribs [OF assms] .
  have "list_all (\<lambda>(p, b). entries b \<noteq> []) m"
    unfolding m by (rule entries_fold) simp
  from finalize_total [OF this] obtain fs where fs: "finalizeFloatsFromMap m = Inr fs"
    "map float_id fs = map fst m" by blast
  have d: "distinct (map fst m)" unfolding m by (rule distinct_fold) simp
  have "set (map fst m) = (\<lambda>c. fst (snd c)) ` set (contribs files)"
    unfolding m keys_fold by simp
  with fs d show ?thesis by (simp del: set_map)
qed

text \<open>
  When no row makes the callback throw, the pass returns its records.
\<close>

lemma onRows_total:
  "\<forall>row \<in> set rows. \<exists>x. rowEntry row = Inr x \<Longrightarrow> \<exists>m'. onRows st m rows = Inr m'"
proof (induction rows arbitrary: m)
  case Nil
  then show ?case by simp
next
  case (Cons r rows)
  from Cons.prems obtain x where x: "rowEntry r = Inr x" by auto
  then have "\<exists>m1. onRow st m r = Inr m1"
    by (cases x) (auto simp: onRow_def)
  then obtain m1 where m1: "onRow st m r = Inr m1" by blast
  from Cons.IH [of m1] Cons.prems m1 show ?case by simp
qed

lemma readFiles_total:
  "\<forall>(fname, rows) \<in> set files. \<forall>row \<in> set rows. \<exists>x. rowEntry row = Inr x \<Longrightarrow>
   \<exists>m'. readFiles m files = Inr m'"
proof (induction files arbitrary: m)
  case Nil
  then show ?case by simp
next
  case (Cons f files)
  obtain fname rows where f: "f = (fname, rows)" by (cases f)
  from Cons.prems f have "\<forall>row \<in> set rows. \<exists>x. rowEntry row = Inr x" by auto
  from onRows_total [OF this] obtain m1 where m1: "onRows (sourceTypeOf fname) m rows = Inr m1"
    by blast
  from Cons.IH [of m1] Cons.prems obtain m' where "readFiles m1 files = Inr m'" by auto
  with m1 f show ?case by simp
qed

lemma load_records:
  assumes "loadFloatsStreaming dirName bgcNode coreNode rowsOf = Inr fs"
  shows "distinct (map float_id fs) \<and> set (map float_id fs) =
           {p. \<exists>fname \<in> set (allFiles dirName bgcNode coreNode).
                 \<exists>row \<in> set (rowsOf fname). \<exists>e. rowEntry row = Inr (Some (p, e))}"
proof (cases "allFiles dirName bgcNode coreNode = []")
  case True
  with assms show ?thesis by (simp add: loadFloatsStreaming_def)
next
  case False
  let ?files = "map (\<lambda>fname. (fname, rowsOf fname)) (allFiles dirName bgcNode coreNode)"
  from assms False obtain m0 where m0: "readFiles [] ?files = Inr m0"
    and fin: "finalizeFloatsFromMap m0 = Inr fs"
    by (auto simp: loadFloatsStreaming_def Let_def split: sum.splits)
  from pass_records [OF m0] fin
  have d: "distinct (map float_id fs)"
    and "set (map float_id fs) = (\<lambda>c. fst (snd c)) ` set (contribs ?files)" by simp_all
  note this(2)
  also have "\<dots> = {p. \<exists>fname \<in> set (allFiles dirName bgcNode coreNode).
                 \<exists>row \<in> set (rowsOf fname). \<exists>e. rowEntry row = Inr (Some (p, e))}"
  proof (intro set_eqI iffI)
    fix p
    assume "p \<in> (\<lambda>c. fst (snd c)) ` set (contribs ?files)"
    then obtain st e where "(st, p, e) \<in> set (contribs ?files)" by force
    then show "p \<in> {p. \<exists>fname \<in> set (allFiles dirName bgcNode coreNode).
                 \<exists>row \<in> set (rowsOf fname). \<exists>e. rowEntry row = Inr (Some (p, e))}"
      unfolding contribs_member by auto
  next
    fix p
    assume "p \<in> {p. \<exists>fname \<in> set (allFiles dirName bgcNode coreNode).
                 \<exists>row \<in> set (rowsOf fname). \<exists>e. rowEntry row = Inr (Some (p, e))}"
    then obtain fname row e where "fname \<in> set (allFiles dirName bgcNode coreNode)"
      "row \<in> set (rowsOf fname)" "rowEntry row = Inr (Some (p, e))" by blast
    then have "(sourceTypeOf fname, p, e) \<in> set (contribs ?files)"
      unfolding contribs_member by auto
    then show "p \<in> (\<lambda>c. fst (snd c)) ` set (contribs ?files)" by force
  qed
  finally show ?thesis using d by simp
qed

lemma load_total:
  assumes "\<forall>fname \<in> set (allFiles dirName bgcNode coreNode).
             \<forall>row \<in> set (rowsOf fname). \<exists>x. rowEntry row = Inr x"
  shows "\<exists>fs. loadFloatsStreaming dirName bgcNode coreNode rowsOf = Inr fs"
proof -
  let ?files = "map (\<lambda>fname. (fname, rowsOf fname)) (allFiles dirName bgcNode coreNode)"
  have "\<forall>(fname, rows) \<in> set ?files. \<forall>row \<in> set rows. \<exists>x. rowEntry row = Inr x"
    using assms by auto
  from readFiles_total [OF this] obtain m0 where m0: "readFiles [] ?files = Inr m0" by blast
  from pass_records [OF m0] obtain fs where "finalizeFloatsFromMap m0 = Inr fs" by blast
  with m0 show ?thesis by (auto simp: loadFloatsStreaming_def Let_def)
qed

text \<open>
  The kind of a record, relative to the kind that line 223 computes from the path of each
  file (\<open>sourceTypeOf\<close>, which is not the directory the file was found under): in the result
  of an ingestion pass, the kind of a record is \<open>'bgc'\<close> exactly when some file whose
  computed kind is \<open>'bgc'\<close> holds a row that yields an entry for the record's platform. And a
  bucket whose kind is \<open>'bgc'\<close> keeps it whatever files are read after, files of computed kind
  \<open>'core'\<close> included.
\<close>

lemma kind_bgc_iff_tagged_contribution:
  "(loadFloatsStreaming dirName bgcNode coreNode rowsOf = Inr fs \<and> r \<in> set fs \<longrightarrow>
      (float_type r = ''bgc'' \<longleftrightarrow>
         (\<exists>file \<in> set (allFiles dirName bgcNode coreNode). sourceTypeOf file = ''bgc'' \<and>
            (\<exists>row \<in> set (rowsOf file). \<exists>e. rowEntry row = Inr (Some (float_id r, e)))))) \<and>
   (bucketKind m p = Some ''bgc'' \<and> readFiles m later = Inr m' \<longrightarrow>
      bucketKind m' p = Some ''bgc'')"
  using load_kind [of dirName bgcNode coreNode rowsOf fs r] kind_sticky [of m p later m']
  by blast

lemma rowW_gets:
  "get rowW [''PLATFORM_NUMBER'', ''platform_number'', ''argo_id'', ''platformid''] = ''7''"
  "get rowW [''LATITUDE'', ''latitude'', ''lat''] = ''1''"
  "get rowW [''LONGITUDE'', ''longitude'', ''lon'', ''lng''] = ''2''"
  "get rowW [''PRES'', ''pres'', ''pressure''] = []"
  "get rowW [''TEMP'', ''temp'', ''temperature''] = []"
  "get rowW [''PSAL'', ''psal'', ''salinity''] = []"
  "get rowW [''DOXY'', ''doxy'', ''oxygen''] = []"
  "get rowW [''NITRATE'', ''nitrate'', ''NITRATE_ADJUSTED'', ''nitrate_adjusted''] = []"
  "get rowW [''PH_IN_SITU_TOTAL'', ''ph_in_situ_total'', ''PH_IN_SITU_TOTAL_ADJUSTED'', ''ph''] = []"
  "get rowW [''DATA_CENTRE'', ''data_centre'', ''ORGANIZATION'', ''organization'', ''ORG'', ''org''] = []"
  "get rowW [''JULD'', ''juld'', ''JULD_ADJUSTED''] = []"
  "get rowW [''DATE_CREATION'', ''date_creation'', ''DATE'', ''date'', ''DATE_UPDATE''] = []"
  "get rowW [''CYCLE_NUMBER'', ''cycle_number'', ''cycle''] = []"
  by (simp_all add: rowW_def get.simps toLowerCase_def lowerChar_def keyMap_def)

lemma rowW_entry: "rowEntry rowW = Inr (Some (''7'', entryW))"
  by (simp add: rowEntry_def rowTime_def fromDateString_def rowW_gets tn entryW_def)

lemma files_W:
  "allFiles ''/srv/app'' (Some (Dir [(''b.csv'', File)])) (Some (Dir [(''a.csv'', File)]))
     = [''/srv/app/data/bgc/b.csv'', ''/srv/app/data/core/a.csv'']"
  by (simp add: allFiles_def listFilesRecursive_def dataDir_def pathJoin_def pathSep_def
        pushedDirs_def foundFiles_def extname_def toLowerCase_def lowerChar_def)

lemma kinds_W:
  "sourceTypeOf ''/srv/app/data/bgc/b.csv'' = ''bgc''"
  "sourceTypeOf ''/srv/app/data/core/a.csv'' = ''core''"
  by (simp_all add: sourceTypeOf_def pathSep_def toLowerCase_def lowerChar_def sublist_code)

lemma read_W:
  "readFiles [] [(''/srv/app/data/bgc/b.csv'', [rowW])] = Inr [(''7'', \<lparr> entries = [entryW], btype = ''bgc'' \<rparr>)]"
  "readFiles [(''7'', \<lparr> entries = [entryW], btype = ''bgc'' \<rparr>)] [(''/srv/app/data/core/a.csv'', [rowW])]
     = Inr [(''7'', \<lparr> entries = [entryW, entryW], btype = ''bgc'' \<rparr>)]"
  by (simp_all add: kinds_W onRow_def rowW_entry addEntry_def mapHas_def pushEntry_def)

lemma read_W2:
  "readFiles [] [(''/srv/app/data/bgc/b.csv'', [rowW]), (''/srv/app/data/core/a.csv'', [rowW])]
     = Inr [(''7'', \<lparr> entries = [entryW, entryW], btype = ''bgc'' \<rparr>)]"
  by (simp add: kinds_W onRow_def rowW_entry addEntry_def mapHas_def pushEntry_def)

lemma final_W:
  "finalizeFloatsFromMap [(''7'', \<lparr> entries = [entryW, entryW], btype = ''bgc'' \<rparr>)]
     = Inr [\<lparr> float_id = ''7'', float_type = ''bgc'', latest = entryW, history = [entryW, entryW],
              cycles = [[cyclePoint entryW, cyclePoint entryW]] \<rparr>]"
  by (simp add: finalizeFloat_def sortEntries_def segment_def closeWalk_def walk0_def visit_def
       newCycle_def timeGap_def presGap_def truthy_def toNum_def entryW_def historyPoint_def Let_def)

lemma load_W:
  "loadFloatsStreaming ''/srv/app'' (Some (Dir [(''b.csv'', File)])) (Some (Dir [(''a.csv'', File)]))
       (\<lambda>file. [rowW])
     = Inr [\<lparr> float_id = ''7'', float_type = ''bgc'', latest = entryW, history = [entryW, entryW],
              cycles = [[cyclePoint entryW, cyclePoint entryW]] \<rparr>]"
  by (simp add: loadFloatsStreaming_def files_W read_W2 final_W del: readFiles.simps finalizeFloatsFromMap.simps)

lemma kind_bgc_iff_tagged_contribution_example:
  "(\<exists>file \<in> set (allFiles ''/srv/app'' (Some (Dir [(''b.csv'', File)])) (Some (Dir [(''a.csv'', File)]))).
       sourceTypeOf file = ''bgc'' \<and> (\<exists>e. rowEntry rowW = Inr (Some (''7'', e)))) \<and>
   bucketKind [(''7'', \<lparr> entries = [entryW, entryW], btype = ''bgc'' \<rparr>)] ''7'' = Some ''bgc''"
  using kind_bgc_iff_tagged_contribution
    [of "''/srv/app''" "Some (Dir [(''b.csv'', File)])" "Some (Dir [(''a.csv'', File)])"
        "\<lambda>file. [rowW]"
        "[\<lparr> float_id = ''7'', float_type = ''bgc'', latest = entryW, history = [entryW, entryW],
              cycles = [[cyclePoint entryW, cyclePoint entryW]] \<rparr>]"
        "\<lparr> float_id = ''7'', float_type = ''bgc'', latest = entryW, history = [entryW, entryW],
              cycles = [[cyclePoint entryW, cyclePoint entryW]] \<rparr>"
        "[(''7'', \<lparr> entries = [entryW], btype = ''bgc'' \<rparr>)]" "''7''"
        "[(''/srv/app/data/core/a.csv'', [rowW])]"
        "[(''7'', \<lparr> entries = [entryW, entryW], btype = ''bgc'' \<rparr>)]"]
    load_W read_W(2)
  by (simp add: bucketKind_def)

section \<open>Properties of the directory scan\<close>

lemma scan_under_root:
  assumes "\<forall>(p, n) \<in> set stack. p = base \<or> prefix (base @ pathSep) p"
    and "\<forall>f \<in> set results. prefix (base @ pathSep) f"
  shows "\<forall>f \<in> set (scan exts stack results). prefix (base @ pathSep) f"
  using assms
proof (induction exts stack results rule: scan.induct)
  case (1 exts results)
  then show ?case by simp
next
  case (2 exts current n stack results)
  have cur: "current = base \<or> prefix (base @ pathSep) current"
    using "2.prems"(1) by auto
  have child: "prefix (base @ pathSep) (pathJoin current name)" for name
    using cur by (auto simp: pathJoin_def prefix_def)
  show ?case
  proof (cases n)
    case (Dir dirents)
    have st: "\<forall>(p, n) \<in> set (rev (pushedDirs current dirents) @ stack).
                p = base \<or> prefix (base @ pathSep) p"
      using "2.prems"(1) child by (auto simp: pushedDirs_def)
    have rs: "\<forall>f \<in> set (results @ foundFiles exts current dirents). prefix (base @ pathSep) f"
      using "2.prems"(2) child by (auto simp: foundFiles_def)
    from "2.IH"(2) [OF Dir st rs] Dir show ?thesis by simp
  next
    case File
    with "2.IH"(1) "2.prems" show ?thesis by simp
  next
    case NoAccess
    with "2.IH"(3) "2.prems" show ?thesis by simp
  next
    case Special
    with "2.IH"(4) "2.prems" show ?thesis by simp
  qed
qed

lemma listed_under_start:
  "f \<in> set (listFilesRecursive startDir startNode exts) \<Longrightarrow> prefix (startDir @ pathSep) f"
  using scan_under_root [of "[(startDir, the startNode)]" startDir "[]" exts]
  by (auto simp: listFilesRecursive_def split: option.splits)

text \<open>Every file found under the \<open>data/bgc\<close> directory has the kind \<open>'bgc'\<close>.\<close>

lemma bgc_root_files_are_bgc:
  assumes "f \<in> set (listFilesRecursive (dataDir dirName ''bgc'') bgcNode exts)"
  shows "sourceTypeOf f = ''bgc''"
proof -
  from listed_under_start [OF assms] obtain rest where
    f: "f = dirName @ ''/data'' @ ''/bgc/'' @ rest"
    by (auto simp: prefix_def dataDir_def pathJoin_def pathSep_def)
  have "toLowerCase f = toLowerCase (dirName @ ''/data'') @ ''/bgc/'' @ toLowerCase rest"
    unfolding f by (simp add: toLowerCase_def lowerChar_def)
  then have "sublist ''/bgc/'' (toLowerCase f)"
    unfolding sublist_def by blast
  then show ?thesis by (simp add: sourceTypeOf_def pathSep_def)
qed

text \<open>
  When no file under the core directory is given the kind \<open>'bgc'\<close>, the kind of a record
  is \<open>'bgc'\<close> exactly when a file under the \<open>data/bgc\<close> directory contributes an entry to it.
\<close>

lemma kind_by_root:
  assumes "loadFloatsStreaming dirName bgcNode coreNode rowsOf = Inr fs" and "r \<in> set fs"
    and "\<forall>f \<in> set (listFilesRecursive (dataDir dirName ''core'') coreNode [''.csv'']).
           sourceTypeOf f = ''core''"
  shows "float_type r = ''bgc'' \<longleftrightarrow>
         (\<exists>file \<in> set (listFilesRecursive (dataDir dirName ''bgc'') bgcNode [''.csv'']).
            \<exists>row \<in> set (rowsOf file). \<exists>e. rowEntry row = Inr (Some (float_id r, e)))"
  unfolding load_kind [OF assms(1,2)] allFiles_def
  using assms(3) bgc_root_files_are_bgc [of _ dirName bgcNode "[''.csv'']"]
  by auto

text \<open>
  The program in \<open>/srv/app\<close> with no \<open>data/bgc\<close> directory and the single file
  \<open>data/core/bgc/a.csv\<close>, holding one row for the platform \<open>7\<close>.
\<close>

lemma files_nested:
  "allFiles ''/srv/app'' None (Some (Dir [(''bgc'', Dir [(''a.csv'', File)])]))
     = [''/srv/app/data/core/bgc/a.csv'']"
  "listFilesRecursive (dataDir ''/srv/app'' ''bgc'') None [''.csv''] = []"
  "listFilesRecursive (dataDir ''/srv/app'' ''core'') (Some (Dir [(''bgc'', Dir [(''a.csv'', File)])]))
     [''.csv''] = [''/srv/app/data/core/bgc/a.csv'']"
  "sourceTypeOf ''/srv/app/data/core/bgc/a.csv'' = ''bgc''"
  by (simp_all add: allFiles_def listFilesRecursive_def dataDir_def pathJoin_def pathSep_def
        pushedDirs_def foundFiles_def extname_def isDirectory_def toLowerCase_def lowerChar_def
        sourceTypeOf_def sublist_code)

lemma read_nested:
  "readFiles [] [(''/srv/app/data/core/bgc/a.csv'', [rowW])]
     = Inr [(''7'', \<lparr> entries = [entryW], btype = ''bgc'' \<rparr>)]"
  by (simp add: files_nested onRow_def rowW_entry addEntry_def mapHas_def pushEntry_def)

lemma final_nested:
  "finalizeFloatsFromMap [(''7'', \<lparr> entries = [entryW], btype = ''bgc'' \<rparr>)]
     = Inr [\<lparr> float_id = ''7'', float_type = ''bgc'', latest = entryW, history = [entryW],
              cycles = [[cyclePoint entryW]] \<rparr>]"
  by (simp add: finalizeFloat_def sortEntries_def segment_def closeWalk_def walk0_def visit_def
       newCycle_def timeGap_def presGap_def truthy_def toNum_def entryW_def historyPoint_def Let_def)

text \<open>
  Claim C7 (the code at the failing input). The scan of the \<open>data/bgc\<close> directory finds no
  file, the scan of the \<open>data/core\<close> directory finds the file \<open>data/core/bgc/a.csv\<close>, whose
  row yields an entry for the platform \<open>7\<close>; and the pass returns the record of that platform
  with the kind \<open>'bgc'\<close>, though no entry of it came from a file under the \<open>data/bgc\<close>
  directory.
\<close>

theorem core_only_record_is_bgc:
  "loadFloatsStreaming ''/srv/app'' None (Some (Dir [(''bgc'', Dir [(''a.csv'', File)])]))
       (\<lambda>file. [rowW])
     = Inr [\<lparr> float_id = ''7'', float_type = ''bgc'', latest = entryW, history = [entryW],
              cycles = [[cyclePoint entryW]] \<rparr>]
   \<and> listFilesRecursive (dataDir ''/srv/app'' ''bgc'') None [''.csv''] = []
   \<and> listFilesRecursive (dataDir ''/srv/app'' ''core'')
         (Some (Dir [(''bgc'', Dir [(''a.csv'', File)])])) [''.csv'']
       = [''/srv/app/data/core/bgc/a.csv'']
   \<and> rowEntry rowW = Inr (Some (''7'', entryW))"
  by (simp add: loadFloatsStreaming_def files_nested read_nested final_nested rowW_entry
        del: readFiles.simps finalizeFloatsFromMap.simps)

text \<open>
  Claim C9 (the code at the failing input). A file found under the core directory, in a
  subdirectory named \<open>bgc\<close>, has the kind \<open>'bgc'\<close>; and so has every file under the core
  directory when the path of the program itself has a segment \<open>bgc\<close>.
\<close>

theorem core_root_file_tagged_bgc:
  "allFiles ''/srv/app'' None (Some (Dir [(''bgc'', Dir [(''a.csv'', File)])]))
     = [''/srv/app/data/core/bgc/a.csv'']
   \<and> sourceTypeOf ''/srv/app/data/core/bgc/a.csv'' = ''bgc''
   \<and> allFiles ''/home/bgc/app'' None (Some (Dir [(''a.csv'', File)]))
     = [''/home/bgc/app/data/core/a.csv'']
   \<and> sourceTypeOf ''/home/bgc/app/data/core/a.csv'' = ''bgc''"
  by (simp add: allFiles_def listFilesRecursive_def dataDir_def pathJoin_def pathSep_def
        pushedDirs_def foundFiles_def extname_def isDirectory_def toLowerCase_def lowerChar_def
        sourceTypeOf_def sublist_code)

section \<open>Properties of the aggregation cache\<close>

lemma inv_fire:
  assumes "cacheInv s" and "fire e s = Some s'"
  shows "cacheInv s'"
proof (cases e)
  case Request
  with assms show ?thesis
    by (auto simp: cacheInv_def ensureCache_def isFinished_def list_all_append
          split: option.splits)
next
  case (PassEnds n out)
  with assms(2) have n: "n < length (passes s)" "passes s ! n = Running"
    and s': "s' = s\<lparr> passes := (passes s)[n := Settled out] \<rparr>"
    by (auto split: if_splits)
  have nf: "\<not> isFinished (passes s ! n)" using n by (simp add: isFinished_def)
  show ?thesis
  proof (cases "CACHE_BUILDING s")
    case None
    with assms(1) have "list_all isFinished (passes s)" by (simp add: cacheInv_def)
    with n nf show ?thesis by (auto simp: list_all_length)
  next
    case (Some k)
    with assms(1) have k: "FLOATS_CACHE s = None" "Suc k = length (passes s)"
      "list_all isFinished (take k (passes s))" by (simp_all add: cacheInv_def)
    have "n = k"
    proof (rule ccontr)
      assume "n \<noteq> k"
      with n k(2) have "n < k" by simp
      with k(3) n(1) have "isFinished (passes s ! n)" by (simp add: list_all_length)
      with nf show False by simp
    qed
    with Some k s' show ?thesis
      by (simp add: cacheInv_def isFinished_def)
  qed
next
  case (Reaction n)
  with assms(2) have n: "n < length (passes s)" by (auto split: if_splits)
  note n = this
  from Reaction assms(2) n obtain out where st: "passes s ! n = Settled out"
    by (auto split: pass.splits sum.splits)
  have nf: "\<not> isFinished (passes s ! n)" using st by (simp add: isFinished_def)
  have s': "CACHE_BUILDING s' = None \<and> passes s' = (passes s)[n := Finished out]"
    using Reaction assms(2) n st
    by (cases out) (auto simp: thenCallback_def catchCallback_def)
  show ?thesis
  proof (cases "CACHE_BUILDING s")
    case None
    with assms(1) have "list_all isFinished (passes s)" by (simp add: cacheInv_def)
    with n nf show ?thesis by (auto simp: list_all_length)
  next
    case (Some k)
    with assms(1) have k: "FLOATS_CACHE s = None" "Suc k = length (passes s)"
      "list_all isFinished (take k (passes s))" by (simp_all add: cacheInv_def)
    have nk: "n = k"
    proof (rule ccontr)
      assume "n \<noteq> k"
      with n k(2) have "n < k" by simp
      with k(3) n(1) have "isFinished (passes s ! n)" by (simp add: list_all_length)
      with nf show False by simp
    qed
    have "list_all isFinished ((passes s)[n := Finished out])"
      unfolding list_all_length
    proof (intro allI impI)
      fix i assume i: "i < length ((passes s)[n := Finished out])"
      show "isFinished ((passes s)[n := Finished out] ! i)"
      proof (cases "i = n")
        case True
        with n show ?thesis by (simp add: isFinished_def)
      next
        case False
        with i k(2) nk have ik: "i < k" "i < length (passes s)" by simp_all
        with k(3) False show ?thesis by (simp add: list_all_length)
      qed
    qed
    with s' show ?thesis by (simp add: cacheInv_def)
  qed
qed

lemma inv_run:
  "cacheInv s \<Longrightarrow> run es s = Some s' \<Longrightarrow> cacheInv s'"
proof (induction es arbitrary: s)
  case Nil
  then show ?case by simp
next
  case (Cons e es)
  then show ?case by (auto split: option.splits dest: inv_fire)
qed

lemma inv_reachable: "run es cache0 = Some s \<Longrightarrow> cacheInv s"
  by (rule inv_run [of cache0]) (simp_all add: cacheInv_def cache0_def)

lemma observed_fire:
  assumes "fire e s = Some s'" and "observed s h = Some out"
  shows "observed s' h = Some out"
proof (cases h)
  case (Value a)
  with assms(2) show ?thesis by (simp add: observed_def)
next
  case (Attached n)
  with assms(2) have n: "n < length (passes s)" and f: "passes s ! n = Finished out"
    by (auto simp: observed_def split: if_splits pass.splits)
  have "n < length (passes s') \<and> passes s' ! n = Finished out"
  proof (cases e)
    case Request
    with assms(1) n f show ?thesis
      by (auto simp: ensureCache_def nth_append split: option.splits)
  next
    case (PassEnds k o')
    with assms(1) n f show ?thesis
      by (auto split: if_splits simp: nth_list_update)
  next
    case (Reaction k)
    with assms(1) n f show ?thesis
      by (auto split: if_splits pass.splits sum.splits
            simp: nth_list_update thenCallback_def catchCallback_def)
  qed
  with Attached show ?thesis by (simp add: observed_def)
qed

lemma observed_run:
  "run es s = Some s' \<Longrightarrow> observed s h = Some out \<Longrightarrow> observed s' h = Some out"
proof (induction es arbitrary: s)
  case Nil
  then show ?case by simp
next
  case (Cons e es)
  then show ?case by (auto split: option.splits dest: observed_fire)
qed

lemma inv_running:
  assumes "cacheInv s"
  shows "length (filter isRunning (passes s)) \<le> 1"
proof -
  have fin: "list_all isFinished ps \<Longrightarrow> filter isRunning ps = []" for ps
    by (induction ps) (auto simp: isFinished_def isRunning_def split: pass.splits)
  show ?thesis
  proof (cases "CACHE_BUILDING s")
    case None
    with assms fin show ?thesis by (simp add: cacheInv_def)
  next
    case (Some n)
    with assms have k: "Suc n = length (passes s)" "list_all isFinished (take n (passes s))"
      by (simp_all add: cacheInv_def)
    then have "passes s = take n (passes s) @ [passes s ! n]"
      by (metis Suc_eq_plus1 lessI take_Suc_conv_app_nth take_all order_refl)
    then have "filter isRunning (passes s) = filter isRunning [passes s ! n]"
      using fin [OF k(2)] by (metis append_Nil filter_append)
    then show ?thesis by simp
  qed
qed

lemma requests_while_building:
  assumes "FLOATS_CACHE s = None" and "CACHE_BUILDING s = Some n"
  shows "run (replicate k Request @ es) s
           = run es (s\<lparr> served := served s @ replicate k (Attached n) \<rparr>)"
  using assms
proof (induction k arbitrary: s)
  case 0
  then show ?case by simp
next
  case (Suc k)
  let ?s1 = "s\<lparr> served := served s @ [Attached n] \<rparr>"
  have e: "ensureCache s = ?s1" using Suc.prems by (simp add: ensureCache_def)
  have "run (replicate k Request @ es) ?s1
          = run es (?s1\<lparr> served := served ?s1 @ replicate k (Attached n) \<rparr>)"
    by (rule Suc.IH) (simp_all add: Suc.prems)
  then show ?case by (simp add: e replicate_app_Cons_same)
qed

text \<open>
  Claim C3. In every state the program can reach, by any sequence of requests, pass
  endings and callbacks: at most one ingestion pass is running; while a build is in
  flight nothing is cached and a request returns the promise of that build, starting no
  pass; when the pass ends with some outcome and its callback runs, whatever requests
  arrive in between, every caller attached to the build has received that same outcome,
  value or failure; and what a caller has received never changes afterwards.
\<close>

theorem single_flight:
  assumes "run es cache0 = Some s"
  shows "length (filter isRunning (passes s)) \<le> 1 \<and>
         (CACHE_BUILDING s = Some n \<longrightarrow>
            FLOATS_CACHE s = None \<and>
            fire Request s = Some (s\<lparr> served := served s @ [Attached n] \<rparr>)) \<and>
         (CACHE_BUILDING s = Some n \<and> passes s ! n = Running \<longrightarrow>
            (\<exists>s2. run (PassEnds n out # replicate k Request @ [Reaction n]) s = Some s2 \<and>
                  passes s2 = (passes s)[n := Finished out] \<and>
                  served s2 = served s @ replicate k (Attached n) \<and>
                  observed s2 (Attached n) = Some out)) \<and>
         (run es' s = Some s' \<and> observed s h = Some res \<longrightarrow> observed s' h = Some res)"
proof -
  have inv: "cacheInv s" using assms by (rule inv_reachable)
  have a: "length (filter isRunning (passes s)) \<le> 1" using inv by (rule inv_running)
  have b: "FLOATS_CACHE s = None \<and> fire Request s = Some (s\<lparr> served := served s @ [Attached n] \<rparr>)"
    if "CACHE_BUILDING s = Some n"
    using inv that by (simp add: cacheInv_def ensureCache_def)
  have c: "\<exists>s2. run (PassEnds n out # replicate k Request @ [Reaction n]) s = Some s2 \<and>
                  passes s2 = (passes s)[n := Finished out] \<and>
                  served s2 = served s @ replicate k (Attached n) \<and>
                  observed s2 (Attached n) = Some out"
    if cb: "CACHE_BUILDING s = Some n" and rn: "passes s ! n = Running"
  proof -
    from inv cb have fc: "FLOATS_CACHE s = None" and len: "Suc n = length (passes s)"
      by (simp_all add: cacheInv_def)
    let ?s1 = "s\<lparr> passes := (passes s)[n := Settled out] \<rparr>"
    have f1: "fire (PassEnds n out) s = Some ?s1" using rn len by simp
    have r: "run (replicate k Request @ [Reaction n]) ?s1
               = run [Reaction n] (?s1\<lparr> served := served ?s1 @ replicate k (Attached n) \<rparr>)"
      by (rule requests_while_building) (simp_all add: fc cb)
    let ?s1' = "?s1\<lparr> served := served ?s1 @ replicate k (Attached n) \<rparr>"
    let ?s2 = "case out of Inr result \<Rightarrow> thenCallback n result ?s1'
                          | Inl err \<Rightarrow> catchCallback n err ?s1'"
    have step1: "run (PassEnds n out # replicate k Request @ [Reaction n]) s
                   = run (replicate k Request @ [Reaction n]) ?s1"
      using f1 by (simp del: fire.simps)
    have step2: "run [Reaction n] ?s1' = Some ?s2"
      using len by (cases out) simp_all
    have props: "passes ?s2 = (passes s)[n := Finished out] \<and>
                 served ?s2 = served s @ replicate k (Attached n) \<and>
                 observed ?s2 (Attached n) = Some out"
      using len by (cases out) (simp_all add: thenCallback_def catchCallback_def observed_def)
    show ?thesis
      unfolding step1 r step2 using props by blast
  qed
  have d: "observed s' h = Some res" if "run es' s = Some s'" "observed s h = Some res"
    using that by (rule observed_run)
  from a b c d show ?thesis by blast
qed

text \<open>
  Claim C5. When the running pass fails and its callback runs (requests may arrive in
  between): nothing is cached and no promise is stored, every caller attached to the
  attempt has received the failure, and the next request starts a new pass.
\<close>

theorem failed_pass_reverts:
  assumes "run es cache0 = Some s" and "CACHE_BUILDING s = Some n" and "passes s ! n = Running"
  shows "\<exists>s2. run (PassEnds n (Inl err) # replicate k Request @ [Reaction n]) s = Some s2 \<and>
           FLOATS_CACHE s2 = None \<and> CACHE_BUILDING s2 = None \<and>
           served s2 = served s @ replicate k (Attached n) \<and>
           observed s2 (Attached n) = Some (Inl err) \<and>
           fire Request s2 = Some (s2\<lparr> CACHE_BUILDING := Some (length (passes s2)),
                                       passes := passes s2 @ [Running],
                                       served := served s2 @ [Attached (length (passes s2))] \<rparr>)"
proof -
  have inv: "cacheInv s" using assms(1) by (rule inv_reachable)
  from inv assms(2) have fc: "FLOATS_CACHE s = None" and len: "Suc n = length (passes s)"
    by (simp_all add: cacheInv_def)
  let ?s1 = "s\<lparr> passes := (passes s)[n := Settled (Inl err)] \<rparr>"
  have f1: "fire (PassEnds n (Inl err)) s = Some ?s1" using assms(3) len by simp
  have r: "run (replicate k Request @ [Reaction n]) ?s1
             = run [Reaction n] (?s1\<lparr> served := served ?s1 @ replicate k (Attached n) \<rparr>)"
    by (rule requests_while_building) (simp_all add: fc assms(2))
  let ?s1' = "?s1\<lparr> served := served ?s1 @ replicate k (Attached n) \<rparr>"
  let ?s2 = "catchCallback n err ?s1'"
  have step1: "run (PassEnds n (Inl err) # replicate k Request @ [Reaction n]) s
                 = run (replicate k Request @ [Reaction n]) ?s1"
    using f1 by (simp del: fire.simps)
  have step2: "run [Reaction n] ?s1' = Some ?s2"
    using len by simp
  have props: "FLOATS_CACHE ?s2 = None \<and> CACHE_BUILDING ?s2 = None \<and>
           served ?s2 = served s @ replicate k (Attached n) \<and>
           observed ?s2 (Attached n) = Some (Inl err) \<and>
           fire Request ?s2 = Some (?s2\<lparr> CACHE_BUILDING := Some (length (passes ?s2)),
                                       passes := passes ?s2 @ [Running],
                                       served := served ?s2 @ [Attached (length (passes ?s2))] \<rparr>)"
    using len fc by (simp add: catchCallback_def observed_def ensureCache_def)
  show ?thesis
    unfolding step1 r step2 using props by blast
qed

lemma run_two_requests:
  "run [Request, Request] cache0
     = Some \<lparr> FLOATS_CACHE = None, CACHE_BUILDING = Some 0, passes = [Running],
              served = [Attached 0, Attached 0] \<rparr>"
  by (simp add: cache0_def ensureCache_def)

lemma run_one_build:
  "run [Request, PassEnds 0 (Inr []), Reaction 0] cache0
     = Some \<lparr> FLOATS_CACHE = Some [], CACHE_BUILDING = None, passes = [Finished (Inr [])],
              served = [Attached 0] \<rparr>"
  by (simp add: cache0_def ensureCache_def thenCallback_def)

theorem single_flight_witness:
  "length (filter isRunning [Running]) \<le> 1 \<and>
   fire Request \<lparr> FLOATS_CACHE = None, CACHE_BUILDING = Some 0, passes = [Running],
                  served = [Attached 0, Attached 0] \<rparr>
     = Some \<lparr> FLOATS_CACHE = None, CACHE_BUILDING = Some 0, passes = [Running],
              served = [Attached 0, Attached 0, Attached 0] \<rparr> \<and>
   (\<exists>s2. run [PassEnds 0 (Inr []), Request, Reaction 0]
            \<lparr> FLOATS_CACHE = None, CACHE_BUILDING = Some 0, passes = [Running],
              served = [Attached 0, Attached 0] \<rparr> = Some s2 \<and>
          passes s2 = [Finished (Inr [])] \<and>
          served s2 = [Attached 0, Attached 0, Attached 0] \<and>
          observed s2 (Attached 0) = Some (Inr [])) \<and>
   observed \<lparr> FLOATS_CACHE = Some [], CACHE_BUILDING = None, passes = [Finished (Inr [])],
              served = [Attached 0, Value []] \<rparr> (Attached 0) = Some (Inr [])"
  using single_flight [OF run_two_requests, of 0 "Inr []" 1 "[]" _ "Value []" "Inr []"]
    single_flight [OF run_one_build, of 0 "Inr []" 0 "[Request]"
      "\<lparr> FLOATS_CACHE = Some [], CACHE_BUILDING = None, passes = [Finished (Inr [])],
         served = [Attached 0, Value []] \<rparr>" "Attached 0" "Inr []"]
  by (simp add: ensureCache_def observed_def)

theorem failed_pass_reverts_witness:
  "\<exists>s2. run [PassEnds 0 (Inl TypeError), Request, Reaction 0]
           \<lparr> FLOATS_CACHE = None, CACHE_BUILDING = Some 0, passes = [Running],
             served = [Attached 0, Attached 0] \<rparr> = Some s2 \<and>
        FLOATS_CACHE s2 = None \<and> CACHE_BUILDING s2 = None \<and>
        served s2 = [Attached 0, Attached 0, Attached 0] \<and>
        observed s2 (Attached 0) = Some (Inl TypeError) \<and>
        fire Request s2 = Some (s2\<lparr> CACHE_BUILDING := Some (length (passes s2)),
                                    passes := passes s2 @ [Running],
                                    served := served s2 @ [Attached (length (passes s2))] \<rparr>)"
  using failed_pass_reverts [OF run_two_requests, of 0 TypeError 1]
  by simp

section \<open>Properties of the calendar arithmetic\<close>

lemma div_bounds:
  fixes x k :: int
  assumes "0 < k"
  shows "k * (x div k) \<le> x" and "x < k * (x div k) + k"
proof -
  have e: "x = k * (x div k) + x mod k" by simp
  have "0 \<le> x mod k" "x mod k < k" using assms by simp_all
  with e show "k * (x div k) \<le> x" and "x < k * (x div k) + k" by linarith+
qed

lemma DayFromYear_upper: "400 * DayFromYear y \<le> 146097 * (y - 1970) + 589"
proof -
  have "4 * ((y - 1969) div 4) \<le> y - 1969" by (rule div_bounds) simp
  moreover have "y - 1901 < 100 * ((y - 1901) div 100) + 100" by (rule div_bounds) simp
  moreover have "400 * ((y - 1601) div 400) \<le> y - 1601" by (rule div_bounds) simp
  ultimately show ?thesis unfolding DayFromYear_def by (simp add: algebra_simps)
qed

lemma DayFromYear_lower: "146097 * (y - 1970) - 506 \<le> 400 * DayFromYear y"
proof -
  have "y - 1969 < 4 * ((y - 1969) div 4) + 4" by (rule div_bounds) simp
  moreover have "100 * ((y - 1901) div 100) \<le> y - 1901" by (rule div_bounds) simp
  moreover have "y - 1601 < 400 * ((y - 1601) div 400) + 400" by (rule div_bounds) simp
  ultimately show ?thesis unfolding DayFromYear_def by (simp add: algebra_simps)
qed

text \<open>\<open>yearFromDay\<close> is the year of the language standard: the largest one that starts
  on or before the day.\<close>

lemma yearFromDay_correct:
  "DayFromYear (yearFromDay d) \<le> d \<and> d < DayFromYear (yearFromDay d + 1)"
proof -
  define y where "y = 1970 + (400 * d) div 146097"
  have "146097 * ((400 * d) div 146097) \<le> 400 * d" by (rule div_bounds) simp
  then have lo: "146097 * (y - 1970) \<le> 400 * d" by (simp add: y_def)
  have "400 * d < 146097 * ((400 * d) div 146097) + 146097" by (rule div_bounds) simp
  then have hi: "400 * d < 146097 * (y - 1970) + 146097" by (simp add: y_def)
  have a: "400 * DayFromYear (y - 1) \<le> 146097 * (y - 1 - 1970) + 589"
    by (rule DayFromYear_upper)
  have b: "146097 * (y + 1 + 1 - 1970) - 506 \<le> 400 * DayFromYear (y + 1 + 1)"
    by (rule DayFromYear_lower)
  have r: "yearFromDay d = (if d < DayFromYear y then y - 1
         else if DayFromYear (y + 1) \<le> d then y + 1 else y)"
    by (simp add: yearFromDay_def y_def Let_def)
  show ?thesis
  proof (cases "d < DayFromYear y")
    case True
    have "DayFromYear (y - 1) \<le> d" using a lo by (simp add: algebra_simps)
    then show ?thesis using True by (simp add: r)
  next
    case False
    show ?thesis
    proof (cases "DayFromYear (y + 1) \<le> d")
      case True
      have "d < DayFromYear (y + 1 + 1)" using b hi by (simp add: algebra_simps)
      then show ?thesis unfolding r using False True by (simp del: add_2_eq_Suc)
    next
      case F2: False
      then show ?thesis using False by (simp add: r)
    qed
  qed
qed

lemma div_succ:
  fixes x k :: int
  assumes "1 < k"
  shows "(x + 1) div k = (if (x + 1) mod k = 0 then x div k + 1 else x div k)"
proof -
  have k0: "0 < k" using assms by simp
  have r: "0 \<le> x mod k" "x mod k < k" using k0 by simp_all
  have e: "x + 1 = k * (x div k) + (x mod k + 1)" by simp
  show ?thesis
  proof (cases "x mod k + 1 = k")
    case True
    then have "x + 1 = k * (x div k + 1)" using e by (simp add: algebra_simps)
    then show ?thesis using k0 by simp
  next
    case False
    with r have lt: "x mod k + 1 < k" by simp
    have d: "(x + 1) div k = x div k"
      using e r lt k0 by (metis add.commute div_mult_self2 div_pos_pos_trivial add_nonneg_nonneg
            zero_le_one less_irrefl add.right_neutral)
    have "(x + 1) mod k = x mod k + 1"
      using e r lt k0 by (metis mod_mult_self2 add.commute mod_pos_pos_trivial add_nonneg_nonneg zero_le_one)
    with r d show ?thesis by simp
  qed
qed

lemma mod_shift:
  fixes y :: int
  shows "(y - k * c) mod k = y mod k"
  by (metis mod_mult_self2 diff_add_cancel)

lemma DayFromYear_Suc: "DayFromYear (y + 1) = DayFromYear y + DaysInYear y"
proof -
  have m4: "(y - 1969 + 1) mod 4 = y mod 4"
    using mod_shift [of y 4 492] by simp
  have m100: "(y - 1901 + 1) mod 100 = y mod 100"
    using mod_shift [of y 100 19] by simp
  have m400: "(y - 1601 + 1) mod 400 = y mod 400"
    using mod_shift [of y 400 4] by simp
  have a: "(y + 1 - 1969) div 4 = (if y mod 4 = 0 then (y - 1969) div 4 + 1 else (y - 1969) div 4)"
    using div_succ [of 4 "y - 1969"] m4 by (simp add: algebra_simps)
  have b: "(y + 1 - 1901) div 100 = (if y mod 100 = 0 then (y - 1901) div 100 + 1 else (y - 1901) div 100)"
    using div_succ [of 100 "y - 1901"] m100 by (simp add: algebra_simps)
  have c: "(y + 1 - 1601) div 400 = (if y mod 400 = 0 then (y - 1601) div 400 + 1 else (y - 1601) div 400)"
    using div_succ [of 400 "y - 1601"] m400 by (simp add: algebra_simps)
  have d: "y mod 400 = 0 \<Longrightarrow> y mod 100 = 0" "y mod 100 = 0 \<Longrightarrow> y mod 4 = 0"
  proof -
    have "(100::int) dvd 400" "(4::int) dvd 100" by simp_all
    then show "y mod 400 = 0 \<Longrightarrow> y mod 100 = 0" "y mod 100 = 0 \<Longrightarrow> y mod 4 = 0"
      by (meson dvd_trans mod_eq_0_iff_dvd)+
  qed
  show ?thesis
    unfolding DayFromYear_def DaysInYear_def isLeapYear_def a b c
    using d by auto
qed

lemma DayFromYear_mono_step: "DayFromYear y < DayFromYear (y + 1)"
  by (simp add: DayFromYear_Suc DaysInYear_def)

lemma DayFromYear_mono_nat: "DayFromYear y \<le> DayFromYear (y + int k)"
proof (induction k)
  case 0
  then show ?case by simp
next
  case (Suc k)
  have "DayFromYear (y + int k) < DayFromYear (y + int k + 1)" by (rule DayFromYear_mono_step)
  moreover have "y + int (Suc k) = y + int k + 1" by simp
  ultimately show ?case using Suc by (simp only:)
qed

lemma DayFromYear_mono: "y \<le> z \<Longrightarrow> DayFromYear y \<le> DayFromYear z"
  using DayFromYear_mono_nat [of y "nat (z - y)"] by simp

lemma DayFromYear_values:
  "DayFromYear 100 = - 683003" "DayFromYear 10000 = 2932897" "DayFromYear 1950 = - 7305"
  by (simp_all add: DayFromYear_def)

lemma year_range:
  assumes "DayFromYear 100 \<le> d" and "d < DayFromYear 10000"
  shows "100 \<le> yearFromDay d \<and> yearFromDay d \<le> 9999"
proof -
  from yearFromDay_correct [of d]
  have a: "DayFromYear (yearFromDay d) \<le> d" and b: "d < DayFromYear (yearFromDay d + 1)"
    by simp_all
  have "100 \<le> yearFromDay d"
  proof (rule ccontr)
    assume "\<not> 100 \<le> yearFromDay d"
    then have "yearFromDay d + 1 \<le> 100" by simp
    from DayFromYear_mono [OF this] b assms(1) show False by simp
  qed
  moreover have "yearFromDay d \<le> 9999"
  proof (rule ccontr)
    assume "\<not> yearFromDay d \<le> 9999"
    then have "10000 \<le> yearFromDay d" by simp
    from DayFromYear_mono [OF this] a assms(2) show False by simp
  qed
  ultimately show ?thesis by simp
qed

lemma DayWithinYear_range:
  "0 \<le> DayWithinYear t \<and> DayWithinYear t < 365 + InLeapYear t"
  using yearFromDay_correct [of "Day t"]
  by (auto simp: DayWithinYear_def YearFromTime_def InLeapYear_def DayFromYear_Suc DaysInYear_def)

lemma month_date:
  assumes "0 \<le> d" and "d < 365 + l" and "l = 0 \<or> l = 1"
  defines "m \<equiv> (if d < 31 then 0
         else if d < 59 + l then 1
         else if d < 90 + l then 2
         else if d < 120 + l then 3
         else if d < 151 + l then 4
         else if d < 181 + l then 5
         else if d < 212 + l then 6
         else if d < 243 + l then 7
         else if d < 273 + l then 8
         else if d < 304 + l then 9
         else if d < 334 + l then 10
         else (11::int))"
  shows "0 \<le> m \<and> m \<le> 11 \<and> 1 \<le> d + 1 - monthStart l m \<and> d + 1 - monthStart l m \<le> 31"
  using assms(1-3) unfolding m_def monthStart_def by auto

lemma InLeapYear_cases: "InLeapYear t = 0 \<or> InLeapYear t = 1"
  by (simp add: InLeapYear_def)

lemma MonthFromTime_range: "0 \<le> MonthFromTime t \<and> MonthFromTime t \<le> 11"
proof -
  from DayWithinYear_range [of t] have r: "0 \<le> DayWithinYear t" "DayWithinYear t < 365 + InLeapYear t"
    by simp_all
  from month_date [OF r InLeapYear_cases] show ?thesis
    by (simp add: MonthFromTime_def Let_def)
qed

lemma DateFromTime_range: "1 \<le> DateFromTime t \<and> DateFromTime t \<le> 31"
proof -
  from DayWithinYear_range [of t] have r: "0 \<le> DayWithinYear t" "DayWithinYear t < 365 + InLeapYear t"
    by simp_all
  from month_date [OF r InLeapYear_cases] show ?thesis
    by (simp add: DateFromTime_def MonthFromTime_def Let_def)
qed

lemma MakeDay_of_time:
  "MakeDay (YearFromTime t) (MonthFromTime t) (DateFromTime t) = Day t"
proof -
  have m: "MonthFromTime t div 12 = 0" "MonthFromTime t mod 12 = MonthFromTime t"
    using MonthFromTime_range [of t] by simp_all
  show ?thesis
    by (simp add: MakeDay_def Let_def m DateFromTime_def DayWithinYear_def InLeapYear_def)
qed

section \<open>Properties of the date strings\<close>

text \<open>The digits of the widths that \<open>toISOString\<close> uses.\<close>

lemma fixedDigits_2: "fixedDigits 2 n = [digitChar (n div 10 mod 10), digitChar (n mod 10)]"
  by (simp add: numeral_2_eq_2)

lemma fixedDigits_3:
  "fixedDigits 3 n = [digitChar (n div 10 div 10 mod 10), digitChar (n div 10 mod 10),
                      digitChar (n mod 10)]"
  by (simp add: numeral_3_eq_3)

lemma fixedDigits_4:
  "fixedDigits 4 n = [digitChar (n div 10 div 10 div 10 mod 10), digitChar (n div 10 div 10 mod 10),
                      digitChar (n div 10 mod 10), digitChar (n mod 10)]"
proof -
  have four: "(4::nat) = Suc (Suc (Suc (Suc 0)))" by simp
  show ?thesis unfolding four by simp
qed

lemma fixedDigits_6:
  "fixedDigits 6 n = [digitChar (n div 10 div 10 div 10 div 10 div 10 mod 10),
                      digitChar (n div 10 div 10 div 10 div 10 mod 10),
                      digitChar (n div 10 div 10 div 10 mod 10), digitChar (n div 10 div 10 mod 10),
                      digitChar (n div 10 mod 10), digitChar (n mod 10)]"
proof -
  have six: "(6::nat) = Suc (Suc (Suc (Suc (Suc (Suc 0)))))" by simp
  show ?thesis unfolding six by simp
qed

lemmas date_eval = msPerDay_def Day_def DayFromYear_def isLeapYear_def yearFromDay_def
  YearFromTime_def DayWithinYear_def InLeapYear_def MonthFromTime_def monthStart_def
  DateFromTime_def HourFromTime_def MinFromTime_def SecFromTime_def msFromTime_def MakeTime_def
  MakeDay_def MakeDate_def newDate_def digitChar_def isoYear_def toISOString_def epoch1950_def
  dayMs_def isoFromJuld_def Let_def fixedDigits_2 fixedDigits_3 fixedDigits_4

lemma isoFromJuld_examples:
  "isoFromJuld 0 = Inr ''1950-01-01T00:00:00.000Z''"
  "isoFromJuld (1 / 2) = Inr ''1950-01-01T12:00:00.000Z''"
  "isoFromJuld 27087.5 = Inr ''2024-02-29T12:00:00.000Z''"
  "isoFromJuld 10000000000000 = Inl RangeError"
  by (simp_all add: date_eval)

lemma digitChar_small:
  assumes "k < 10"
  shows "isDigit (digitChar k) \<and> digitVal (digitChar k) = k"
proof -
  from assms have "k = 0 \<or> k = 1 \<or> k = 2 \<or> k = 3 \<or> k = 4 \<or> k = 5 \<or> k = 6 \<or> k = 7 \<or> k = 8 \<or> k = 9"
    by arith
  then show ?thesis
    by (elim disjE) (simp_all add: digitChar_def isDigit_def digitVal_def)
qed

lemma digit_mod: "isDigit (digitChar (n mod 10))" "digitVal (digitChar (n mod 10)) = n mod 10"
  using digitChar_small [of "n mod 10"] by simp_all

lemma length_fixedDigits: "length (fixedDigits w n) = w"
  by (induction w arbitrary: n) simp_all

lemma filter_fixedDigits: "filter isDigit (fixedDigits w n) = fixedDigits w n"
  by (induction w arbitrary: n) (simp_all add: digit_mod)

lemma digitsVal_snoc: "digitsVal (ds @ [c]) = 10 * digitsVal ds + digitVal c"
  by (simp add: digitsVal_def)

lemma digitsVal_fixedDigits: "digitsVal (fixedDigits w n) = n mod 10 ^ w"
proof (induction w arbitrary: n)
  case 0
  then show ?case by (simp add: digitsVal_def)
next
  case (Suc w)
  have "n mod (10 * 10 ^ w) = 10 * (n div 10 mod 10 ^ w) + n mod 10"
    by (rule mod_mult2_eq)
  then show ?case by (simp add: digitsVal_snoc Suc.IH digit_mod)
qed

lemma parseInt_fixedDigits: "n < 10 ^ w \<Longrightarrow> parseInt (fixedDigits w n) = int n"
  by (simp add: parseInt_def digitsVal_fixedDigits)

lemma fromDateString_parts:
  assumes "filter isDigit s = a @ b @ c @ d @ e @ f @ g"
    and "length a = 4" "length b = 2" "length c = 2" "length d = 2" "length e = 2" "length f = 2"
  shows "fromDateString s =
     (case DateUTC (parseInt a) (parseInt b - 1) (parseInt c) (parseInt d) (parseInt e) (parseInt f) of
        None \<Rightarrow> Some (Inl RangeError)
      | Some dtMs \<Rightarrow>
          Some (Inr (real_of_int (dtMs - epoch1950) / real_of_int dayMs, toISOString dtMs)))"
  by (simp add: fromDateString_def Let_def slice_def assms)

lemma iso_digits:
  assumes "0 \<le> YearFromTime t" "YearFromTime t \<le> 9999"
  shows "filter isDigit (toISOString t) =
     fixedDigits 4 (nat (YearFromTime t)) @ fixedDigits 2 (nat (MonthFromTime t + 1)) @
     fixedDigits 2 (nat (DateFromTime t)) @ fixedDigits 2 (nat (HourFromTime t)) @
     fixedDigits 2 (nat (MinFromTime t)) @ fixedDigits 2 (nat (SecFromTime t)) @
     fixedDigits 3 (nat (msFromTime t))"
  using assms by (simp add: toISOString_def isoYear_def filter_fixedDigits isDigit_def)

lemma time_split:
  "TimeWithinDay t = MakeTime (HourFromTime t) (MinFromTime t) (SecFromTime t) (msFromTime t)"
proof -
  define u where "u = t div 1000"
  define v where "v = u div 60"
  define w where "w = v div 60"
  define H where "H = w mod 24"
  define Mi where "Mi = v mod 60"
  define S where "S = u mod 60"
  define m1 where "m1 = t mod 1000"
  have a: "t mod (1000 * 86400) = 1000 * (t div 1000 mod 86400) + t mod 1000"
    by (rule zmod_zmult2_eq) simp
  have b: "u mod (60 * 1440) = 60 * (u div 60 mod 1440) + u mod 60"
    by (rule zmod_zmult2_eq) simp
  have c: "v mod (60 * 24) = 60 * (v div 60 mod 24) + v mod 60"
    by (rule zmod_zmult2_eq) simp
  have n: "(1000::int) * 86400 = 86400000" "(60::int) * 1440 = 86400" "(60::int) * 24 = 1440"
    by simp_all
  have a': "t mod 86400000 = 1000 * (u mod 86400) + m1"
    using a unfolding n u_def m1_def .
  have b': "u mod 86400 = 60 * (v mod 1440) + S"
    using b unfolding n v_def S_def .
  have c': "v mod 1440 = 60 * H + Mi"
    using c unfolding n H_def w_def Mi_def .
  have "t mod 86400000 = 1000 * (60 * (60 * H + Mi) + S) + m1"
    unfolding a' b' c' ..
  also have "\<dots> = H * 3600000 + Mi * 60000 + S * 1000 + m1"
    by (simp add: algebra_simps)
  finally have main: "t mod 86400000 = H * 3600000 + Mi * 60000 + S * 1000 + m1" .
  have d1: "t div 1000 div 60 = t div 60000"
    using zdiv_zmult2_eq [of 60 t 1000] by simp
  have d2: "t div 60000 div 60 = t div 3600000"
    using zdiv_zmult2_eq [of 60 t 60000] by simp
  have eS: "SecFromTime t = S" by (simp only: SecFromTime_def S_def u_def)
  have eM: "MinFromTime t = Mi" by (simp only: MinFromTime_def Mi_def v_def u_def d1)
  have eH: "HourFromTime t = H" by (simp only: HourFromTime_def H_def w_def v_def u_def d1 d2)
  have em: "msFromTime t = m1" by (simp only: msFromTime_def m1_def)
  show ?thesis
    unfolding TimeWithinDay_def msPerDay_def MakeTime_def eS eM eH em by (rule main)
qed

lemma MakeTime_of_time:
  "MakeTime (HourFromTime t) (MinFromTime t) (SecFromTime t) 0 = TimeWithinDay t - msFromTime t"
  unfolding time_split [of t] by (simp add: MakeTime_def)

lemma Day_TimeWithinDay: "Day t * msPerDay + TimeWithinDay t = t"
  unfolding Day_def TimeWithinDay_def by (rule div_mult_mod_eq)

lemma MakeDate_of_time:
  "MakeDate (MakeDay (YearFromTime t) (MonthFromTime t) (DateFromTime t))
            (MakeTime (HourFromTime t) (MinFromTime t) (SecFromTime t) 0) = t - msFromTime t"
  unfolding MakeDay_of_time MakeTime_of_time MakeDate_def
  using Day_TimeWithinDay [of t] by (simp add: algebra_simps)

lemma time_ranges:
  "0 \<le> HourFromTime t" "HourFromTime t < 24" "0 \<le> MinFromTime t" "MinFromTime t < 60"
  "0 \<le> SecFromTime t" "SecFromTime t < 60" "0 \<le> msFromTime t" "msFromTime t < 1000"
  by (simp_all add: HourFromTime_def MinFromTime_def SecFromTime_def msFromTime_def)

lemma parse_field:
  assumes "0 \<le> x" and "x < 10 ^ w"
  shows "parseInt (fixedDigits w (nat x)) = x"
proof -
  have "nat x < 10 ^ w" using assms by (simp add: nat_less_iff)
  from parseInt_fixedDigits [OF this] assms(1) show ?thesis by simp
qed

text \<open>
  Reading the ISO string of a time in the years 0100 to 9999 back through the date
  formula gives the same time without its milliseconds.
\<close>

lemma fromDateString_toISOString:
  assumes yr: "100 \<le> YearFromTime t" "YearFromTime t \<le> 9999"
    and rng: "\<bar>t\<bar> \<le> 8000000000000000"
  shows "fromDateString (toISOString t) =
     Some (Inr (real_of_int (t - msFromTime t - epoch1950) / real_of_int dayMs,
                toISOString (t - msFromTime t)))"
proof -
  have y0: "0 \<le> YearFromTime t" using yr by simp
  note dg = iso_digits [OF y0 yr(2)]
  have pY: "parseInt (fixedDigits 4 (nat (YearFromTime t))) = YearFromTime t"
    by (rule parse_field) (use yr in simp_all)
  have pM: "parseInt (fixedDigits 2 (nat (MonthFromTime t + 1))) = MonthFromTime t + 1"
    by (rule parse_field) (use MonthFromTime_range [of t] in simp_all)
  have pD: "parseInt (fixedDigits 2 (nat (DateFromTime t))) = DateFromTime t"
    by (rule parse_field) (use DateFromTime_range [of t] in simp_all)
  have pH: "parseInt (fixedDigits 2 (nat (HourFromTime t))) = HourFromTime t"
    by (rule parse_field) (use time_ranges [of t] in simp_all)
  have pMi: "parseInt (fixedDigits 2 (nat (MinFromTime t))) = MinFromTime t"
    by (rule parse_field) (use time_ranges [of t] in simp_all)
  have pS: "parseInt (fixedDigits 2 (nat (SecFromTime t))) = SecFromTime t"
    by (rule parse_field) (use time_ranges [of t] in simp_all)
  have clip: "TimeClip (t - msFromTime t) = Some (t - msFromTime t)"
    using rng time_ranges(7,8) [of t] by (simp add: TimeClip_def)
  have utc: "DateUTC (YearFromTime t) (MonthFromTime t) (DateFromTime t) (HourFromTime t)
               (MinFromTime t) (SecFromTime t) = Some (t - msFromTime t)"
    using yr(1) by (simp add: DateUTC_def MakeDate_of_time clip)
  show ?thesis
    unfolding fromDateString_parts [OF dg length_fixedDigits length_fixedDigits length_fixedDigits
        length_fixedDigits length_fixedDigits length_fixedDigits] pY pM pD pH pMi pS
    by (simp add: utc)
qed

section \<open>The round trip of a julian day\<close>

lemma epoch1950_value: "epoch1950 = - 631152000000"
  by (simp add: epoch1950_def MakeDate_def MakeDay_def DayFromYear_def monthStart_def msPerDay_def
        isLeapYear_def Let_def)

lemma Day_range:
  assumes "- 59011459200000 \<le> t" and "t < 253402300800000"
  shows "DayFromYear 100 \<le> Day t \<and> Day t < DayFromYear 10000"
proof -
  define q where "q = t div 86400000"
  have "86400000 * q \<le> t" "t < 86400000 * q + 86400000"
    unfolding q_def by (rule div_bounds, simp)+
  with assms have "- 683003 \<le> q \<and> q < 2932897" by simp
  then show ?thesis
    by (simp add: DayFromYear_values Day_def msPerDay_def q_def)
qed

text \<open>
  Claim C6, amended. For a julian day from -675698 up to, not including, 2940202 (an
  instant in the years 0100 to 9999), the round trip succeeds and its result differs
  from the julian day by less than one second, 1/86400 of a day; it is the julian day
  itself when that is a whole number of seconds. Numbers are exact reals here.
\<close>

theorem roundTrip_within_second:
  assumes "- 675698 \<le> J" and "J < 2940202"
  shows "\<exists>J'. roundTrip J = Some J' \<and> \<bar>J' - J\<bar> < 1 / 86400 \<and>
           (J * 86400 \<in> \<int> \<longrightarrow> J' = J)"
proof -
  define v where "v = real_of_int epoch1950 + J * real_of_int dayMs"
  define t where "t = (if 0 \<le> v then \<lfloor>v\<rfloor> else \<lceil>v\<rceil>)"
  have v: "v = J * 86400000 - 631152000000"
    by (simp add: v_def epoch1950_value dayMs_def)
  have vlo: "- 59011459200000 \<le> v" and vhi: "v < 253402300800000"
    using assms by (simp_all add: v)
  have nd: "newDate v = Some t"
    using vlo vhi by (simp add: newDate_def t_def)
  have tlo: "- 59011459200000 \<le> t"
  proof (cases "0 \<le> v")
    case True
    then have "0 \<le> t" by (simp add: t_def)
    then show ?thesis by simp
  next
    case False
    have "real_of_int (- 59011459200000) \<le> v" using vlo by simp
    then have "- 59011459200000 \<le> \<lceil>v\<rceil>" by (simp only: le_ceiling_iff)
    with False show ?thesis by (simp add: t_def)
  qed
  have thi: "t < 253402300800000"
  proof (cases "0 \<le> v")
    case True
    have "v < real_of_int 253402300800000" using vhi by simp
    then have "\<lfloor>v\<rfloor> < 253402300800000" by (simp only: floor_less_iff)
    with True show ?thesis by (simp add: t_def)
  next
    case False
    then have "\<lceil>v\<rceil> \<le> 0" by (simp add: ceiling_le_iff)
    with False show ?thesis by (simp add: t_def)
  qed
  have close: "\<bar>real_of_int t - v\<bar> < 1"
    unfolding t_def by (cases "0 \<le> v") (simp_all, linarith+)
  from Day_range [OF tlo thi] have "100 \<le> YearFromTime t \<and> YearFromTime t \<le> 9999"
    unfolding YearFromTime_def by (intro year_range) simp_all
  then have yr: "100 \<le> YearFromTime t" "YearFromTime t \<le> 9999" by simp_all
  have rng: "\<bar>t\<bar> \<le> 8000000000000000" using tlo thi by simp
  define J' where "J' = real_of_int (t - msFromTime t - epoch1950) / real_of_int dayMs"
  have rt: "roundTrip J = Some J'"
    using nd fromDateString_toISOString [OF yr rng]
    by (simp add: roundTrip_def isoFromJuld_def v_def J'_def)
  have ms: "0 \<le> msFromTime t" "msFromTime t < 1000" by (rule time_ranges)+
  have J'v: "J' * 86400000 = real_of_int t - real_of_int (msFromTime t) + 631152000000"
    by (simp add: J'_def epoch1950_value dayMs_def)
  have Jv: "J * 86400000 = v + 631152000000" by (simp add: v)
  have "\<bar>J' * 86400000 - J * 86400000\<bar> < 1000"
    unfolding J'v Jv using close ms by linarith
  then have small: "\<bar>J' - J\<bar> < 1 / 86400" by linarith
  have exact: "J' = J" if "J * 86400 \<in> \<int>"
  proof -
    from that obtain k where k: "J * 86400 = real_of_int k" by (auto elim: Ints_cases)
    define w where "w = 1000 * k - 631152000000"
    have vw: "v = real_of_int w"
      using k by (simp add: v w_def)
    have "t = w"
      by (simp only: t_def vw floor_of_int ceiling_of_int if_cancel)
    then have tk: "t = 1000 * k - 631152000000"
      by (simp add: w_def)
    have "t = 1000 * (k - 631152000)" using tk by simp
    then have "msFromTime t = 0"
      by (simp only: msFromTime_def mod_mult_self1_is_0)
    with J'v tk have "J' * 86400000 = 1000 * real_of_int k" by simp
    also have "\<dots> = J * 86400000" using k by simp
    finally show ?thesis by simp
  qed
  from rt small exact show ?thesis by blast
qed

theorem roundTrip_within_second_witness:
  "\<exists>J'. roundTrip (1 / 2) = Some J' \<and> \<bar>J' - 1 / 2\<bar> < 1 / 86400 \<and> J' = 1 / 2"
  using roundTrip_within_second [of "1 / 2"] by auto

text \<open>
  Three julian days for which the round trip does not give the value back: a third of a
  second (the milliseconds are not read back), a day in the year 33 (a year below 100 is
  read as 1900 + year) and a day in the year 10163 (the six-digit year shifts the digits
  that the date formula reads).
\<close>

lemma roundTrip_third_of_second:
  "roundTrip (1 / 262144) = Some 0"
proof -
  have nd: "newDate (real_of_int epoch1950 + 1 / 262144 * real_of_int dayMs) = Some (- 631151999670)"
    by (simp add: newDate_def epoch1950_value dayMs_def)
  have y: "yearFromDay (- 7305) = 1950"
    by (simp add: yearFromDay_def DayFromYear_def Let_def)
  have d: "Day (- 631151999670) = - 7305" by (simp add: Day_def msPerDay_def)
  have yt: "YearFromTime (- 631151999670) = 1950" by (simp add: YearFromTime_def d y)
  have dw: "DayWithinYear (- 631151999670) = 0"
    by (simp add: DayWithinYear_def yt d DayFromYear_def)
  have lp: "InLeapYear (- 631151999670) = 0" by (simp add: InLeapYear_def yt isLeapYear_def)
  have mo: "MonthFromTime (- 631151999670) = 0" by (simp add: MonthFromTime_def dw lp)
  have da: "DateFromTime (- 631151999670) = 1"
    by (simp add: DateFromTime_def dw lp mo monthStart_def)
  have tm: "HourFromTime (- 631151999670) = 0" "MinFromTime (- 631151999670) = 0"
    "SecFromTime (- 631151999670) = 0" "msFromTime (- 631151999670) = 330"
    by (simp_all add: HourFromTime_def MinFromTime_def SecFromTime_def msFromTime_def)
  have isoS: "toISOString (- 631151999670) = ''1950-01-01T00:00:00.330Z''"
    by (simp add: toISOString_def yt mo da tm isoYear_def fixedDigits_2 fixedDigits_3 fixedDigits_4
          digitChar_def)
  have dg: "filter isDigit ''1950-01-01T00:00:00.330Z''
              = ''1950'' @ ''01'' @ ''01'' @ ''00'' @ ''00'' @ ''00'' @ ''330''"
    by (simp add: isDigit_def)
  have p: "parseInt ''1950'' = 1950" "parseInt ''01'' = 1" "parseInt ''00'' = 0"
    by (simp_all add: parseInt_def digitsVal_def digitVal_def)
  have utc: "DateUTC 1950 0 1 0 0 0 = Some epoch1950"
    by (simp add: DateUTC_def epoch1950_def MakeTime_def TimeClip_def MakeDate_def MakeDay_def
          DayFromYear_def monthStart_def msPerDay_def isLeapYear_def Let_def)
  have fd: "fromDateString ''1950-01-01T00:00:00.330Z''
              = Some (Inr (0, toISOString epoch1950))"
    using fromDateString_parts [OF dg] by (simp add: p utc)
  show ?thesis
    unfolding roundTrip_def isoFromJuld_def nd by (simp add: isoS fd)
qed

lemma roundTrip_year_33: "roundTrip (- 700000) = Some (- 6040)"
proof -
  have nd: "newDate (real_of_int epoch1950 + - 700000 * real_of_int dayMs) = Some (- 61111152000000)"
    by (simp add: newDate_def epoch1950_value dayMs_def)
  have y: "yearFromDay (- 707305) = 33"
    by (simp add: yearFromDay_def DayFromYear_def Let_def)
  have d: "Day (- 61111152000000) = - 707305" by (simp add: Day_def msPerDay_def)
  have yt: "YearFromTime (- 61111152000000) = 33" by (simp add: YearFromTime_def d y)
  have dw: "DayWithinYear (- 61111152000000) = 169"
    by (simp add: DayWithinYear_def yt d DayFromYear_def)
  have lp: "InLeapYear (- 61111152000000) = 0" by (simp add: InLeapYear_def yt isLeapYear_def)
  have mo: "MonthFromTime (- 61111152000000) = 5" by (simp add: MonthFromTime_def dw lp)
  have da: "DateFromTime (- 61111152000000) = 19"
    by (simp add: DateFromTime_def dw lp mo monthStart_def)
  have tm: "HourFromTime (- 61111152000000) = 0" "MinFromTime (- 61111152000000) = 0"
    "SecFromTime (- 61111152000000) = 0" "msFromTime (- 61111152000000) = 0"
    by (simp_all add: HourFromTime_def MinFromTime_def SecFromTime_def msFromTime_def)
  have isoS: "toISOString (- 61111152000000) = ''0033-06-19T00:00:00.000Z''"
    by (simp add: toISOString_def yt mo da tm isoYear_def fixedDigits_2 fixedDigits_3 fixedDigits_4
          digitChar_def)
  have dg: "filter isDigit ''0033-06-19T00:00:00.000Z''
              = ''0033'' @ ''06'' @ ''19'' @ ''00'' @ ''00'' @ ''00'' @ ''000''"
    by (simp add: isDigit_def)
  have p: "parseInt ''0033'' = 33" "parseInt ''06'' = 6" "parseInt ''19'' = 19" "parseInt ''00'' = 0"
    by (simp_all add: parseInt_def digitsVal_def digitVal_def)
  have utc: "DateUTC 33 5 19 0 0 0 = Some (- 1153008000000)"
    by (simp add: DateUTC_def MakeTime_def TimeClip_def MakeDate_def MakeDay_def
          DayFromYear_def monthStart_def msPerDay_def isLeapYear_def Let_def)
  have fd: "fromDateString ''0033-06-19T00:00:00.000Z''
              = Some (Inr (- 6040, toISOString (- 1153008000000)))"
    using fromDateString_parts [OF dg] by (simp add: p utc epoch1950_value dayMs_def)
  show ?thesis
    unfolding roundTrip_def isoFromJuld_def nd by (simp add: isoS fd)
qed

lemma roundTrip_year_10163: "roundTrip 3000000 = Some (- 5387513 / 8)"
proof -
  have nd: "newDate (real_of_int epoch1950 + 3000000 * real_of_int dayMs) = Some 258568848000000"
    by (simp add: newDate_def epoch1950_value dayMs_def)
  have y: "yearFromDay 2992695 = 10163"
    by (simp add: yearFromDay_def DayFromYear_def Let_def)
  have d: "Day 258568848000000 = 2992695" by (simp add: Day_def msPerDay_def)
  have yt: "YearFromTime 258568848000000 = 10163" by (simp add: YearFromTime_def d y)
  have dw: "DayWithinYear 258568848000000 = 263"
    by (simp add: DayWithinYear_def yt d DayFromYear_def)
  have lp: "InLeapYear 258568848000000 = 0" by (simp add: InLeapYear_def yt isLeapYear_def)
  have mo: "MonthFromTime 258568848000000 = 8" by (simp add: MonthFromTime_def dw lp)
  have da: "DateFromTime 258568848000000 = 21"
    by (simp add: DateFromTime_def dw lp mo monthStart_def)
  have tm: "HourFromTime 258568848000000 = 0" "MinFromTime 258568848000000 = 0"
    "SecFromTime 258568848000000 = 0" "msFromTime 258568848000000 = 0"
    by (simp_all add: HourFromTime_def MinFromTime_def SecFromTime_def msFromTime_def)
  have isoS: "toISOString 258568848000000 = ''+010163-09-21T00:00:00.000Z''"
    by (simp add: toISOString_def yt mo da tm isoYear_def fixedDigits_2 fixedDigits_3 fixedDigits_6
          digitChar_def)
  have dg: "filter isDigit ''+010163-09-21T00:00:00.000Z''
              = ''0101'' @ ''63'' @ ''09'' @ ''21'' @ ''00'' @ ''00'' @ ''00000''"
    by (simp add: isDigit_def)
  have p: "parseInt ''0101'' = 101" "parseInt ''63'' = 63" "parseInt ''09'' = 9"
    "parseInt ''21'' = 21" "parseInt ''00'' = 0"
    by (simp_all add: parseInt_def digitsVal_def digitVal_def)
  have utc: "DateUTC 101 62 9 21 0 0 = Some (- 58816292400000)"
    by (simp add: DateUTC_def MakeTime_def TimeClip_def MakeDate_def MakeDay_def
          DayFromYear_def monthStart_def msPerDay_def isLeapYear_def Let_def)
  have fd: "fromDateString ''+010163-09-21T00:00:00.000Z''
              = Some (Inr (- 5387513 / 8, toISOString (- 58816292400000)))"
    using fromDateString_parts [OF dg] by (simp add: p utc epoch1950_value dayMs_def)
  show ?thesis
    unfolding roundTrip_def isoFromJuld_def nd by (simp add: isoS fd)
qed

text \<open>
  Claim C6 as stated fails: the date formula reads whole seconds, so the julian day
  \<open>1/262144\<close> (about a third of a second; every double operation on it is exact) comes
  back as 0; and outside the years 0100 to 9999 the result is far from the julian day.
\<close>

theorem roundTrip_loses_milliseconds:
  "roundTrip (1 / 262144) = Some 0 \<and> \<bar>(0::real) - 1 / 262144\<bar> > 1 / 1000000 \<and>
   roundTrip (- 700000) = Some (- 6040) \<and> roundTrip 3000000 = Some (- 5387513 / 8)"
  by (simp add: roundTrip_third_of_second roundTrip_year_33 roundTrip_year_10163)

end
